theory Spec2Isabelle
  imports Main "HOL-Library.AList"
begin

section \<open>The Google Drive cloner of google\_connections.py\<close>

text \<open>
  A shallow embedding of the class \<open>GoogleDriveCloner\<close>. The remote provider
  (\<open>self.service\<close>) is a parameter: a record of its six operations over a provider state
  of any type. Every Python exception is a value of \<open>exn\<close>; a method is a function from
  the session state to a result and the session state that the call leaves behind, so that
  what a method did before it raised stays visible. Every request sent to the provider and
  every \<open>time.sleep\<close> is appended to a trace held in the state.
\<close>

subsection \<open>Module constants\<close>

definition FOLDER_TYPE :: string where
  "FOLDER_TYPE = ''application/vnd.google-apps.folder''"

definition SPREADSHEET_TYPE :: string where
  "SPREADSHEET_TYPE = ''application/vnd.google-apps.spreadsheet''"

definition MIME_TYPE_ORDER :: "(string \<times> int) list" where
  "MIME_TYPE_ORDER = [(FOLDER_TYPE, 1), (SPREADSHEET_TYPE, 0)]"

definition CLEANUP_SLEEP :: nat where "CLEANUP_SLEEP = 45"
definition SPREADSHEET_SLEEP :: nat where "SPREADSHEET_SLEEP = 30"
definition COPY_SLEEP :: nat where "COPY_SLEEP = 1"

subsection \<open>Exceptions, results and sequencing\<close>

datatype exn =
    KeyError string
  | IndexError
  | ValueError
  | RecursionError
  | HttpError string

type_synonym ('a, 's) prog = "'s \<Rightarrow> (exn + 'a) \<times> 's"

definition ret :: "'a \<Rightarrow> ('a, 's) prog" where
  "ret v s = (Inr v, s)"

definition throw :: "exn \<Rightarrow> ('a, 's) prog" where
  "throw e s = (Inl e, s)"

definition seq :: "('a, 's) prog \<Rightarrow> ('a \<Rightarrow> ('b, 's) prog) \<Rightarrow> ('b, 's) prog" where
  "seq m f s = (case m s of (Inl e, s') \<Rightarrow> (Inl e, s') | (Inr v, s') \<Rightarrow> f v s')"

text \<open>\<open>d[key]\<close> on a dictionary: the field is an option, absent raises \<open>KeyError\<close>.\<close>

definition getitem :: "'a option \<Rightarrow> string \<Rightarrow> ('a, 's) prog" where
  "getitem field key = (case field of None \<Rightarrow> throw (KeyError key) | Some v \<Rightarrow> ret v)"

text \<open>A \<open>for\<close> loop whose body may raise; \<open>continue\<close> is the body returning.\<close>

fun foreach :: "'a list \<Rightarrow> ('a \<Rightarrow> (unit, 's) prog) \<Rightarrow> (unit, 's) prog" where
  "foreach [] body s = (Inr (), s)"
| "foreach (x # xs) body s =
     (case body x s of (Inl e, s') \<Rightarrow> (Inl e, s') | (Inr u, s') \<Rightarrow> foreach xs body s')"

text \<open>Python truthiness of an \<open>Optional[str]\<close>: \<open>None\<close> and the empty string are false.\<close>

definition truthy :: "string option \<Rightarrow> bool" where
  "truthy x = (case x of None \<Rightarrow> False | Some t \<Rightarrow> t \<noteq> [])"

subsection \<open>Data: file metadata, provider responses, the provider, the session\<close>

text \<open>
  The value stored per file id in \<open>file_info\<close> and in a listing page: a dictionary with the
  keys kind, name, mimeType and parent, any of which may be absent.
\<close>

record info =
  kind :: "string option"
  name :: "string option"
  mimeType :: "string option"
  parent :: "string option"

definition no_info :: info where
  "no_info = \<lparr>kind = None, name = None, mimeType = None, parent = None\<rparr>"

text \<open>One file of a provider response: the keys id, kind, name, mimeType, parents.\<close>

record raw_file =
  r_id :: "string option"
  r_kind :: "string option"
  r_name :: "string option"
  r_mimeType :: "string option"
  r_parents :: "string list option"

record list_response =
  files :: "raw_file list option"
  nextPageToken :: "string option"

text \<open>The response of copy, delete, update and create: a dictionary read at key id.\<close>

type_synonym id_response = "string option"

text \<open>
  The provider. \<open>svc_list pageToken q\<close>, \<open>svc_get fileId fields\<close>, \<open>svc_copy fileId\<close>,
  \<open>svc_delete fileId\<close>, \<open>svc_update fileId addParents removeParents name\<close> and
  \<open>svc_create name mimeType parent\<close>; each may raise and each may change the provider state.
\<close>

record 'p service =
  svc_list :: "string option \<Rightarrow> string option \<Rightarrow> (list_response, 'p) prog"
  svc_get :: "string \<Rightarrow> string \<Rightarrow> (raw_file, 'p) prog"
  svc_copy :: "string \<Rightarrow> (id_response, 'p) prog"
  svc_delete :: "string \<Rightarrow> (id_response, 'p) prog"
  svc_update :: "string \<Rightarrow> string \<Rightarrow> string \<Rightarrow> string \<Rightarrow> (id_response, 'p) prog"
  svc_create :: "string \<Rightarrow> string \<Rightarrow> string \<Rightarrow> (id_response, 'p) prog"

datatype request =
    List "string option" "string option"
  | Get string string
  | Copy string
  | Delete string
  | Update string string string string
  | Create string string string

text \<open>
  What the trace records: a request sent to the provider, a \<open>time.sleep\<close> of so many
  seconds, and the entry into \<open>_cleanup_files\<close> with its two arguments.
\<close>

datatype event =
    Request request
  | Sleep nat
  | Cleanup string string

text \<open>
  The attributes of a \<open>GoogleDriveCloner\<close>: the provider's state behind \<open>self.service\<close>,
  \<open>file_info\<close> (a dictionary in insertion order), \<open>copied_files\<close>, \<open>folders_copied\<close>, and
  the trace.
\<close>

record 'p cloner =
  remote :: 'p
  file_info :: "(string \<times> info) list"
  copied_files :: "string set"
  folders_copied :: "(string \<times> string) list"
  trace :: "event list"

definition emit :: "event \<Rightarrow> (unit, 'p cloner) prog" where
  "emit ev s = (Inr (), s\<lparr>trace := trace s @ [ev]\<rparr>)"

definition sleep :: "nat \<Rightarrow> (unit, 'p cloner) prog" where
  "sleep secs = emit (Sleep secs)"

text \<open>\<open>self.service.op(...).execute()\<close>: the request is recorded, then the provider runs.\<close>

definition execute :: "request \<Rightarrow> ('r, 'p) prog \<Rightarrow> ('r, 'p cloner) prog" where
  "execute req op s =
     (case op (remote s) of
        (r, p') \<Rightarrow> (r, s\<lparr>remote := p', trace := trace s @ [Request req]\<rparr>))"

text \<open>The events added to the trace between two states.\<close>

definition issued :: "'p cloner \<Rightarrow> 'p cloner \<Rightarrow> event list" where
  "issued s s' = drop (length (trace s)) (trace s')"

subsection \<open>\<open>_get_file_info_one_page\<close> and \<open>_get_all_file_info\<close>\<close>

text \<open>
  The inner loop over one file of the page: \<open>file.pop("id")\<close>, then every other key is
  stored into \<open>file_id_to_info[file_id]\<close>, \<open>parents\<close> as \<open>parent = v[0]\<close>. The entry is a
  \<open>defaultdict\<close> entry: it comes into being at the first key stored, and a later file of
  the same id overwrites it key by key.
\<close>

definition override :: "'a option \<Rightarrow> 'a option \<Rightarrow> 'a option" where
  "override new old = (case new of None \<Rightarrow> old | Some v \<Rightarrow> Some v)"

definition add_file :: "raw_file \<Rightarrow> (string \<times> info) list \<Rightarrow> exn + (string \<times> info) list" where
  "add_file file acc =
     (case r_id file of
        None \<Rightarrow> Inl (KeyError ''id'')
      | Some file_id \<Rightarrow>
          (case r_parents file of
             Some [] \<Rightarrow> Inl IndexError
           | ps \<Rightarrow>
               if r_kind file = None \<and> r_name file = None \<and> r_mimeType file = None \<and> ps = None
               then Inr acc
               else
                 let old = (case map_of acc file_id of None \<Rightarrow> no_info | Some i \<Rightarrow> i)
                 in Inr (AList.update file_id
                      \<lparr>kind = override (r_kind file) (kind old),
                       name = override (r_name file) (name old),
                       mimeType = override (r_mimeType file) (mimeType old),
                       parent = override (map_option hd ps) (parent old)\<rparr> acc)))"

fun add_files :: "raw_file list \<Rightarrow> (string \<times> info) list \<Rightarrow> exn + (string \<times> info) list" where
  "add_files [] acc = Inr acc"
| "add_files (file # rest) acc =
     (case add_file file acc of Inl e \<Rightarrow> Inl e | Inr acc' \<Rightarrow> add_files rest acc')"

text \<open>
  \<open>kwargs["pageToken"]\<close> and \<open>kwargs["q"]\<close> are set only for a true argument; the page size
  and the field list are the same in every request and are left out of the trace.
\<close>

definition kwarg :: "string option \<Rightarrow> string option" where
  "kwarg x = (if truthy x then x else None)"

definition get_file_info_one_page ::
  "'p service \<Rightarrow> string option \<Rightarrow> string option
     \<Rightarrow> ((string \<times> info) list \<times> string option, 'p cloner) prog" where
  "get_file_info_one_page P page_token query =
     seq (execute (List (kwarg page_token) (kwarg query))
            (svc_list P (kwarg page_token) (kwarg query)))
       (\<lambda>resp. seq (getitem (files resp) ''files'')
          (\<lambda>file_data.
             case add_files file_data [] of
               Inl e \<Rightarrow> throw e
             | Inr file_id_to_info \<Rightarrow> ret (file_id_to_info, nextPageToken resp)))"

text \<open>\<open>file_id_to_info[file_id] = info\<close> for every item of a page, in the page's order.\<close>

definition merge_page :: "(string \<times> info) list \<Rightarrow> (string \<times> info) list \<Rightarrow> (string \<times> info) list" where
  "merge_page page acc = fold (\<lambda>(file_id, i). AList.update file_id i) page acc"

text \<open>
  The loop \<open>while init or next_token\<close>, entered after its first page was requested with no
  token: it goes on while the token returned is true. The provider may return a token
  forever, so the loop is a partial function and \<open>None\<close> is its not returning.
\<close>

partial_function (option) all_pages ::
  "'p service \<Rightarrow> string option \<Rightarrow> (string \<times> info) list \<Rightarrow> 'p cloner
     \<Rightarrow> ((exn + (string \<times> info) list) \<times> 'p cloner) option" where
  "all_pages P next_token acc s =
     (case get_file_info_one_page P next_token None s of
        (Inl e, s') \<Rightarrow> Some (Inl e, s')
      | (Inr (next_page_info, next_token'), s') \<Rightarrow>
          if truthy next_token'
          then all_pages P next_token' (merge_page next_page_info acc) s'
          else Some (Inr (merge_page next_page_info acc), s'))"

definition get_all_file_info ::
  "'p service \<Rightarrow> 'p cloner \<Rightarrow> ((exn + (string \<times> info) list) \<times> 'p cloner) option" where
  "get_all_file_info P s = all_pages P None [] s"

subsection \<open>\<open>_clone_file\<close>, \<open>_delete_file\<close>, \<open>_get_one_file_info\<close>, \<open>move_file\<close>, \<open>create_folder\<close>\<close>

definition clone_file :: "'p service \<Rightarrow> string \<Rightarrow> (id_response, 'p cloner) prog" where
  "clone_file P file_id = execute (Copy file_id) (svc_copy P file_id)"

definition delete_file :: "'p service \<Rightarrow> string \<Rightarrow> (id_response, 'p cloner) prog" where
  "delete_file P file_id = execute (Delete file_id) (svc_delete P file_id)"

text \<open>\<open>",".join(fields)\<close>\<close>

fun join_comma :: "string list \<Rightarrow> string" where
  "join_comma [] = []"
| "join_comma [x] = x"
| "join_comma (x # y # ys) = x @ '','' @ join_comma (y # ys)"

definition get_one_file_info ::
  "'p service \<Rightarrow> string \<Rightarrow> string list option \<Rightarrow> (raw_file, 'p cloner) prog" where
  "get_one_file_info P file_id field_list =
     (let fields' = (case field_list of
                       None \<Rightarrow> [''id'', ''mimeType'', ''name'', ''parents'']
                     | Some fs \<Rightarrow> if fs = [] then [''id'', ''mimeType'', ''name'', ''parents''] else fs)
      in execute (Get file_id (join_comma fields')) (svc_get P file_id (join_comma fields')))"

text \<open>The request \<open>self.service.update(**kwargs)\<close> and the \<open>resp["id"]\<close> returned.\<close>

definition send_update ::
  "'p service \<Rightarrow> string \<Rightarrow> string \<Rightarrow> string \<Rightarrow> string \<Rightarrow> (string, 'p cloner) prog" where
  "send_update P file_id destination_parent_id current_parent_id nm =
     seq (execute (Update file_id destination_parent_id current_parent_id nm)
            (svc_update P file_id destination_parent_id current_parent_id nm))
       (\<lambda>resp. getitem resp ''id'')"

definition move_file ::
  "'p service \<Rightarrow> string \<Rightarrow> string \<Rightarrow> string option \<Rightarrow> string option \<Rightarrow> string option
     \<Rightarrow> (string, 'p cloner) prog" where
  "move_file P file_id destination_parent_id current_parent_id nm mime_type =
     (if \<not> (truthy current_parent_id \<and> truthy nm \<and> truthy mime_type)
      then
        seq (get_one_file_info P file_id None)
          (\<lambda>fi. seq (getitem (r_parents fi) ''parents'')
             (\<lambda>parents. seq (case parents of [] \<Rightarrow> throw IndexError | p # ps \<Rightarrow> ret p)
                (\<lambda>current_parent_id'. seq (getitem (r_name fi) ''name'')
                   (\<lambda>nm'. seq (getitem (r_mimeType fi) ''mimeType'')
                      (\<lambda>mime_type'.
                         send_update P file_id destination_parent_id current_parent_id' nm')))))
      else send_update P file_id destination_parent_id (the current_parent_id) (the nm))"

definition create_folder :: "'p service \<Rightarrow> string \<Rightarrow> string \<Rightarrow> (string, 'p cloner) prog" where
  "create_folder P destination_parent_id new_name =
     seq (execute (Create new_name FOLDER_TYPE destination_parent_id)
            (svc_create P new_name FOLDER_TYPE destination_parent_id))
       (\<lambda>resp. getitem resp ''id'')"

subsection \<open>\<open>_cleanup_files\<close>\<close>

text \<open>The query \<open>f"'{parent_id}' in parents"\<close>.\<close>

definition in_parents :: "string \<Rightarrow> string" where
  "in_parents parent_id = CHR 0x27 # parent_id @ CHR 0x27 # '' in parents''"

definition prefix :: string where
  "prefix = ''Copy of ''"

definition startswith :: "string \<Rightarrow> string \<Rightarrow> bool" where
  "startswith s p = (take (length p) s = p)"

text \<open>
  The dictionary comprehension \<open>{v["name"]: k for k, v in files_in_destination.items()}\<close>:
  a later item of the same name overwrites the earlier one.
\<close>

fun name_to_id :: "(string \<times> info) list \<Rightarrow> (string \<times> string) list \<Rightarrow> exn + (string \<times> string) list" where
  "name_to_id [] acc = Inr acc"
| "name_to_id ((k, v) # rest) acc =
     (case name v of
        None \<Rightarrow> Inl (KeyError ''name'')
      | Some n \<Rightarrow> name_to_id rest (AList.update n k acc))"

text \<open>
  \<open>clean_name\<close> as it stands after the \<open>if is_copy\<close> inside the stray branch.
\<close>

definition clean :: "string \<Rightarrow> string" where
  "clean n = (if startswith n prefix then drop (length prefix) n else n)"

text \<open>The body of the loop over \<open>files_in_current.items()\<close>.\<close>

definition cleanup_one ::
  "'p service \<Rightarrow> string \<Rightarrow> string \<Rightarrow> (string \<times> string) list \<Rightarrow> string \<times> info
     \<Rightarrow> (unit, 'p cloner) prog" where
  "cleanup_one P parent_id destination_parent_id destination_file_name_to_id item =
     (case item of (current_file_id, fi) \<Rightarrow>
        seq (getitem (name fi) ''name'')
          (\<lambda>nm s.
             if current_file_id \<notin> fst ` set (file_info s)
             then
               (let clean_name = clean nm;
                    move = seq (getitem (mimeType fi) ''mimeType'')
                             (\<lambda>mime_type.
                                seq (move_file P current_file_id destination_parent_id
                                       (Some parent_id) (Some clean_name) (Some mime_type))
                                  (\<lambda>moved. ret ()))
                in case map_of destination_file_name_to_id clean_name of
                     Some id_to_delete \<Rightarrow>
                       if id_to_delete = current_file_id then ret () s
                       else seq (delete_file P id_to_delete) (\<lambda>deleted. move) s
                   | None \<Rightarrow> move s)
             else ret () s))"

text \<open>The two listings taken on entry: one page each, the next-page token dropped.\<close>

definition fresh_listings ::
  "'p service \<Rightarrow> string \<Rightarrow> string
     \<Rightarrow> ((string \<times> info) list \<times> (string \<times> info) list, 'p cloner) prog" where
  "fresh_listings P parent_id destination_parent_id =
     seq (get_file_info_one_page P None (Some (in_parents parent_id)))
       (\<lambda>(files_in_current, t1).
          seq (get_file_info_one_page P None (Some (in_parents destination_parent_id)))
            (\<lambda>(files_in_destination, t2). ret (files_in_current, files_in_destination)))"

text \<open>The name-to-id dictionary and the loop over the current listing.\<close>

definition cleanup_loop ::
  "'p service \<Rightarrow> string \<Rightarrow> string \<Rightarrow> (string \<times> info) list \<Rightarrow> (string \<times> info) list
     \<Rightarrow> (unit, 'p cloner) prog" where
  "cleanup_loop P parent_id destination_parent_id files_in_current files_in_destination =
     (case name_to_id files_in_destination [] of
        Inl e \<Rightarrow> throw e
      | Inr destination_file_name_to_id \<Rightarrow>
          foreach files_in_current
            (cleanup_one P parent_id destination_parent_id destination_file_name_to_id))"

definition cleanup_files :: "'p service \<Rightarrow> string \<Rightarrow> string \<Rightarrow> (unit, 'p cloner) prog" where
  "cleanup_files P parent_id destination_parent_id =
     seq (emit (Cleanup parent_id destination_parent_id))
       (\<lambda>u. seq (fresh_listings P parent_id destination_parent_id)
          (\<lambda>(files_in_current, files_in_destination).
             cleanup_loop P parent_id destination_parent_id
               files_in_current files_in_destination))"

subsection \<open>\<open>copy_file\<close>\<close>

text \<open>\<open>self.file_info[file_id]\<close>\<close>

definition lookup :: "string \<Rightarrow> (info, 'p cloner) prog" where
  "lookup file_id s = getitem (map_of (file_info s) file_id) file_id s"

text \<open>\<open>self.copied_files.add(file_id)\<close>\<close>

definition mark_copied :: "string \<Rightarrow> (unit, 'p cloner) prog" where
  "mark_copied file_id s = (Inr (), s\<lparr>copied_files := insert file_id (copied_files s)\<rparr>)"

definition copy_file :: "'p service \<Rightarrow> string \<Rightarrow> string \<Rightarrow> (string, 'p cloner) prog" where
  "copy_file P file_id destination_parent_id =
     seq (clone_file P file_id)
       (\<lambda>cloned. seq (lookup file_id)
          (\<lambda>current. seq (getitem cloned ''id'')
             (\<lambda>cloned_id. seq (getitem (parent current) ''parent'')
                (\<lambda>current_parent. seq (getitem (name current) ''name'')
                   (\<lambda>current_name. seq (getitem (mimeType current) ''mimeType'')
                      (\<lambda>current_mime.
                         seq (move_file P cloned_id destination_parent_id
                                (Some current_parent) (Some current_name) (Some current_mime))
                           (\<lambda>moved.
                              seq (if current_mime = SPREADSHEET_TYPE
                                   then sleep SPREADSHEET_SLEEP else ret ())
                                (\<lambda>u. seq (mark_copied file_id)
                                   (\<lambda>u. seq (cleanup_files P current_parent destination_parent_id)
                                      (\<lambda>u. ret moved))))))))))"

subsection \<open>\<open>copy_item\<close>\<close>

text \<open>\<open>MIME_TYPE_ORDER.get(mimeType, -1)\<close>\<close>

definition priority_of :: "string \<Rightarrow> int" where
  "priority_of mime = (case map_of MIME_TYPE_ORDER mime of None \<Rightarrow> - 1 | Some p \<Rightarrow> p)"

text \<open>\<open>child_files_to_copy[priority].append(x)\<close> on a \<open>defaultdict(list)\<close>.\<close>

definition append_to :: "int \<Rightarrow> 'a \<Rightarrow> (int \<times> 'a list) list \<Rightarrow> (int \<times> 'a list) list" where
  "append_to priority x groups =
     AList.update priority ((case map_of groups priority of None \<Rightarrow> [] | Some l \<Rightarrow> l) @ [x]) groups"

text \<open>
  The loop over \<open>self.file_info.items()\<close> that fills \<open>child_files_to_copy\<close>; a child with
  no mimeType raises \<open>KeyError\<close>.
\<close>

fun collect_children ::
  "string \<Rightarrow> string \<Rightarrow> (string \<times> info) list \<Rightarrow> (int \<times> (string \<times> string) list) list
     \<Rightarrow> exn + (int \<times> (string \<times> string) list) list" where
  "collect_children item_id created_folder_id [] groups = Inr groups"
| "collect_children item_id created_folder_id ((file_id, file) # rest) groups =
     (if parent file = Some item_id
      then (case mimeType file of
              None \<Rightarrow> Inl (KeyError ''mimeType'')
            | Some mime \<Rightarrow>
                collect_children item_id created_folder_id rest
                  (append_to (priority_of mime) (file_id, created_folder_id) groups))
      else collect_children item_id created_folder_id rest groups)"

text \<open>
  \<open>priorities = list(sorted(child_files_to_copy))[::-1]\<close> and the two nested loops: the
  pairs in the order in which \<open>copy_item\<close> is called on them.
\<close>

definition priorities :: "(int \<times> 'a list) list \<Rightarrow> int list" where
  "priorities groups = rev (sort (map fst groups))"

definition in_priority_order :: "(int \<times> 'a list) list \<Rightarrow> 'a list" where
  "in_priority_order groups =
     concat (map (\<lambda>priority. case map_of groups priority of None \<Rightarrow> [] | Some l \<Rightarrow> l)
               (priorities groups))"

definition record_folder :: "string \<Rightarrow> string \<Rightarrow> (unit, 'p cloner) prog" where
  "record_folder item_id created_folder_id s =
     (Inr (), s\<lparr>copied_files := insert item_id (copied_files s),
                folders_copied := folders_copied s @ [(item_id, created_folder_id)]\<rparr>)"

text \<open>
  The body of \<open>copy_item\<close>, with the recursive call \<open>self.copy_item\<close> as the parameter
  \<open>recurse\<close>.
\<close>

definition copy_item_body ::
  "'p service \<Rightarrow> (string \<Rightarrow> string \<Rightarrow> string option \<Rightarrow> (string option, 'p cloner) prog)
     \<Rightarrow> string \<Rightarrow> string \<Rightarrow> string option \<Rightarrow> (string option, 'p cloner) prog" where
  "copy_item_body P recurse item_id destination_parent_id new_name =
     seq (sleep COPY_SLEEP)
       (\<lambda>u. seq (lookup item_id)
          (\<lambda>item_info. seq (getitem (name item_info) ''name'')
             (\<lambda>nm. seq (getitem (mimeType item_info) ''mimeType'')
                (\<lambda>mime s.
                   if item_id \<in> copied_files s then ret None s
                   else if mime = FOLDER_TYPE
                   then
                     seq (create_folder P destination_parent_id
                            (if truthy new_name then the new_name else nm))
                       (\<lambda>created_folder_id s'.
                          case collect_children item_id created_folder_id (file_info s') [] of
                            Inl e \<Rightarrow> throw e s'
                          | Inr child_files_to_copy \<Rightarrow>
                              seq (foreach (in_priority_order child_files_to_copy)
                                     (\<lambda>(file_id, created).
                                        seq (recurse file_id created None) (\<lambda>r. ret ())))
                                (\<lambda>u. seq (record_folder item_id created_folder_id)
                                   (\<lambda>u. ret (Some created_folder_id))) s') s
                   else seq (copy_file P item_id destination_parent_id)
                          (\<lambda>moved. ret (Some moved)) s))))"

text \<open>
  \<open>copy_item\<close> calls itself once per level of the folder tree. The interpreter bounds the
  depth of the call stack and raises \<open>RecursionError\<close> at the call that exceeds it;
  \<open>depth\<close> is the number of nested calls still allowed below this one.
\<close>

fun copy_item ::
  "'p service \<Rightarrow> nat \<Rightarrow> string \<Rightarrow> string \<Rightarrow> string option \<Rightarrow> (string option, 'p cloner) prog" where
  "copy_item P 0 = copy_item_body P (\<lambda>file_id created new_name. throw RecursionError)"
| "copy_item P (Suc depth) = copy_item_body P (copy_item P depth)"

subsection \<open>\<open>run_cleanup\<close> and \<open>run\<close>\<close>

definition run_cleanup :: "'p service \<Rightarrow> (unit, 'p cloner) prog" where
  "run_cleanup P s =
     foreach (folders_copied s) (\<lambda>(parent_id, destination). cleanup_files P parent_id destination) s"

text \<open>
  \<open>try: result = self.copy_item(...) except Exception as e\<close>, then the sleep and the sweep
  outside any handler, then \<open>raise exception\<close> or \<open>return result\<close>.
\<close>

definition run ::
  "'p service \<Rightarrow> nat \<Rightarrow> string \<Rightarrow> string \<Rightarrow> string option \<Rightarrow> (string option, 'p cloner) prog" where
  "run P depth base_folder_id destination_parent_folder_id new_name s =
     (case copy_item P depth base_folder_id destination_parent_folder_id new_name s of
        (outcome, s1) \<Rightarrow>
          (case seq (sleep CLEANUP_SLEEP) (\<lambda>u. run_cleanup P) s1 of
             (Inl e, s2) \<Rightarrow> (Inl e, s2)
           | (Inr u, s2) \<Rightarrow>
               (case outcome of
                  Inl exception \<Rightarrow> (Inl exception, s2)
                | Inr result \<Rightarrow> (Inr result, s2))))"

text \<open>A session as \<open>__init__\<close> leaves it, the snapshot given.\<close>

definition new_session :: "'p \<Rightarrow> (string \<times> info) list \<Rightarrow> 'p cloner" where
  "new_session p snapshot =
     \<lparr>remote = p, file_info = snapshot, copied_files = {}, folders_copied = [], trace = []\<rparr>"

subsection \<open>A reference provider: the file store of tests/mock\_service.py\<close>

text \<open>
  \<open>MockService\<close> keeps a dictionary from id to \<open>File\<close> (name, parents, mimeType) and
  answers create, copy, delete, update and get on it; a missing id is the \<open>KeyError\<close> of
  \<open>self.files[fileId]\<close>, a parent to remove that the file does not have is the
  \<open>ValueError\<close> of \<open>list.remove\<close>. New ids (\<open>uuid4\<close> there) are drawn from a counter.
\<close>

record drive_file =
  f_name :: string
  f_parents :: "string list"
  f_mimeType :: string

record store =
  store_files :: "(string \<times> drive_file) list"
  next_uuid :: nat

definition uuid :: "nat \<Rightarrow> string" where
  "uuid n = ''uuid'' @ replicate n (CHR ''+'')"

definition to_raw :: "string \<times> drive_file \<Rightarrow> raw_file" where
  "to_raw entry =
     \<lparr>r_id = Some (fst entry), r_kind = None, r_name = Some (f_name (snd entry)),
      r_mimeType = Some (f_mimeType (snd entry)), r_parents = Some (f_parents (snd entry))\<rparr>"

definition store_create :: "string \<Rightarrow> string \<Rightarrow> string \<Rightarrow> (id_response, store) prog" where
  "store_create nm mime parent_id st =
     (let file_id = uuid (next_uuid st)
      in (Inr (Some file_id),
          st\<lparr>store_files := AList.update file_id
                \<lparr>f_name = nm, f_parents = [parent_id], f_mimeType = mime\<rparr> (store_files st),
             next_uuid := Suc (next_uuid st)\<rparr>))"

definition store_copy :: "string \<Rightarrow> (id_response, store) prog" where
  "store_copy fileId st =
     (case map_of (store_files st) fileId of
        None \<Rightarrow> (Inl (KeyError fileId), st)
      | Some old_file \<Rightarrow>
          (let new_id = uuid (next_uuid st)
           in (Inr (Some new_id),
               st\<lparr>store_files := AList.update new_id old_file (store_files st),
                  next_uuid := Suc (next_uuid st)\<rparr>)))"

definition store_delete :: "string \<Rightarrow> (id_response, store) prog" where
  "store_delete fileId st =
     (case map_of (store_files st) fileId of
        None \<Rightarrow> (Inl (KeyError fileId), st)
      | Some f \<Rightarrow> (Inr (Some fileId), st\<lparr>store_files := AList.delete fileId (store_files st)\<rparr>))"

definition store_update :: "string \<Rightarrow> string \<Rightarrow> string \<Rightarrow> string \<Rightarrow> (id_response, store) prog" where
  "store_update fileId addParents removeParents nm st =
     (case map_of (store_files st) fileId of
        None \<Rightarrow> (Inl (KeyError fileId), st)
      | Some f \<Rightarrow>
          if removeParents \<notin> set (f_parents f) then (Inl ValueError, st)
          else (Inr (Some fileId),
                st\<lparr>store_files := AList.update fileId
                      (f\<lparr>f_parents := remove1 removeParents (f_parents f) @ [addParents],
                         f_name := nm\<rparr>) (store_files st)\<rparr>))"

definition store_get :: "string \<Rightarrow> string \<Rightarrow> (raw_file, store) prog" where
  "store_get fileId field_list st =
     (case map_of (store_files st) fileId of
        None \<Rightarrow> (Inl (KeyError fileId), st)
      | Some f \<Rightarrow> (Inr (to_raw (fileId, f)), st))"

text \<open>
  Modelled from the spec: the List operation of the provider with a parent filter
  (section 6, "query (parent filter, e.g. id in parents)"). \<open>MockService.list\<close> returns every
  file whatever the query and the tests replace the listing; here a query
  \<open>'p' in parents\<close> selects the files that have \<open>p\<close> among their parents, no query selects
  all, in the order of the store and on a single page.
\<close>

definition matches_query :: "string option \<Rightarrow> string \<times> drive_file \<Rightarrow> bool" where
  "matches_query q entry = (q = None \<or> (\<exists>p \<in> set (f_parents (snd entry)). q = Some (in_parents p)))"

definition store_list :: "string option \<Rightarrow> string option \<Rightarrow> (list_response, store) prog" where
  "store_list pageToken q st =
     (Inr \<lparr>files = Some (map to_raw (filter (matches_query q) (store_files st))), nextPageToken = None\<rparr>, st)"

definition store_service :: "store service" where
  "store_service =
     \<lparr>svc_list = store_list, svc_get = store_get, svc_copy = store_copy,
      svc_delete = store_delete, svc_update = store_update, svc_create = store_create\<rparr>"

text \<open>
  Modelled from the spec: the List operation answers page by page (section 6, "pageToken?,
  query?, page size" giving a "page of \{id, name, mimeType, parents\} + next page token or
  none"). The file store with such a List: a request returns at most \<open>page_size\<close> of the
  selected files, in the order of the store, and, while files remain, a token that tells
  where the next page starts (here as many \<open>+\<close> as files already returned); a request
  carrying a token resumes there. Every other operation is the one of the file store.
\<close>

definition paged_list :: "nat \<Rightarrow> string option \<Rightarrow> string option \<Rightarrow> (list_response, store) prog" where
  "paged_list page_size pageToken q st =
     (let start = (case pageToken of None \<Rightarrow> 0 | Some token \<Rightarrow> length token);
          rest = drop start (filter (matches_query q) (store_files st))
      in (Inr \<lparr>files = Some (map to_raw (take page_size rest)),
               nextPageToken = (if page_size < length rest
                                then Some (replicate (start + page_size) (CHR ''+''))
                                else None)\<rparr>, st))"

definition paged_service :: "nat \<Rightarrow> store service" where
  "paged_service page_size =
     \<lparr>svc_list = paged_list page_size, svc_get = store_get, svc_copy = store_copy,
      svc_delete = store_delete, svc_update = store_update, svc_create = store_create\<rparr>"

section \<open>Vocabulary of the properties\<close>

text \<open>
  A relation between the state before and the state after is preserved by a method when it
  holds whatever the result, raised or returned.
\<close>

definition preserves :: "('s \<Rightarrow> 's \<Rightarrow> bool) \<Rightarrow> ('a, 's) prog \<Rightarrow> bool" where
  "preserves R m = (\<forall>s. R s (snd (m s)))"

text \<open>
  A relation is closed under a set of events when it is a preorder that every request or
  sleep of the set keeps, whatever the provider does to its own state.
\<close>

definition closed :: "('p cloner \<Rightarrow> 'p cloner \<Rightarrow> bool) \<Rightarrow> event set \<Rightarrow> bool" where
  "closed R A =
     (reflp R \<and> transp R \<and>
      (\<forall>s p ev. ev \<in> A \<longrightarrow> R s (s\<lparr>remote := p, trace := trace s @ [ev]\<rparr>)))"

text \<open>The trace only grows, and by events of the given set.\<close>

definition appends :: "event set \<Rightarrow> 'p cloner \<Rightarrow> 'p cloner \<Rightarrow> bool" where
  "appends A s s' = (\<exists>evs. trace s' = trace s @ evs \<and> set evs \<subseteq> A)"

text \<open>The snapshot and the two stores of copied items are untouched.\<close>

definition same_books :: "'p cloner \<Rightarrow> 'p cloner \<Rightarrow> bool" where
  "same_books s s' =
     (file_info s' = file_info s \<and> copied_files s' = copied_files s \<and>
      folders_copied s' = folders_copied s)"

text \<open>The requests \<open>move_file\<close> can send for a file and a destination.\<close>

definition move_events :: "string \<Rightarrow> string \<Rightarrow> event set" where
  "move_events file_id destination_parent_id =
     {ev. (\<exists>f. ev = Request (Get file_id f)) \<or>
          (\<exists>cp n. ev = Request (Update file_id destination_parent_id cp n))}"

text \<open>The List requests.\<close>

definition list_events :: "event set" where
  "list_events = {ev. \<exists>t q. ev = Request (List t q)}"

text \<open>
  The invariants of the data model between an earlier and a later state of a session: the
  snapshot is the same, no copied id is lost, \<open>folders_copied\<close> is only appended to, and
  every source id appended is a folder of the snapshot.
\<close>

definition is_folder :: "(string \<times> info) list \<Rightarrow> string \<Rightarrow> bool" where
  "is_folder snapshot file_id =
     (case map_of snapshot file_id of None \<Rightarrow> False | Some fi \<Rightarrow> mimeType fi = Some FOLDER_TYPE)"

definition session_inv :: "'p cloner \<Rightarrow> 'p cloner \<Rightarrow> bool" where
  "session_inv s s' =
     (file_info s' = file_info s \<and> copied_files s \<subseteq> copied_files s' \<and>
      take (length (folders_copied s)) (folders_copied s') = folders_copied s \<and>
      (\<forall>(item_id, created) \<in> set (drop (length (folders_copied s)) (folders_copied s')).
          is_folder (file_info s) item_id))"


text \<open>The Create and Copy requests of a trace, in order.\<close>

fun creates_and_copies :: "event list \<Rightarrow> request list" where
  "creates_and_copies [] = []"
| "creates_and_copies (Request (Create n m p) # evs) = Create n m p # creates_and_copies evs"
| "creates_and_copies (Request (Copy i) # evs) = Copy i # creates_and_copies evs"
| "creates_and_copies (ev # evs) = creates_and_copies evs"

text \<open>The Delete requests among the events.\<close>

fun is_delete :: "event \<Rightarrow> bool" where
  "is_delete (Request (Delete k)) = True"
| "is_delete ev = False"

text \<open>
  The order of the specification: the children of an item are the snapshot entries whose
  parent it is; folders go first, spreadsheets next, every other type last, each group in
  the order of the snapshot.
\<close>

definition children_of :: "string \<Rightarrow> (string \<times> info) list \<Rightarrow> (string \<times> info) list" where
  "children_of item_id snapshot = filter (\<lambda>(file_id, f). parent f = Some item_id) snapshot"

definition folders_first :: "(string \<times> info) list \<Rightarrow> (string \<times> info) list" where
  "folders_first children =
     filter (\<lambda>(file_id, f). mimeType f = Some FOLDER_TYPE) children @
     filter (\<lambda>(file_id, f). mimeType f = Some SPREADSHEET_TYPE) children @
     filter (\<lambda>(file_id, f). mimeType f \<noteq> Some FOLDER_TYPE \<and>
                             mimeType f \<noteq> Some SPREADSHEET_TYPE) children"

text \<open>\<open>child_files_to_copy[p]\<close>, empty for a priority that is not a key.\<close>

definition group :: "(int \<times> 'a list) list \<Rightarrow> int \<Rightarrow> 'a list" where
  "group groups p = (case map_of groups p of None \<Rightarrow> [] | Some l \<Rightarrow> l)"

text \<open>
  The id a listing holds last under a name: what the name-to-id dictionary of
  \<open>_cleanup_files\<close> keeps when names repeat.
\<close>

fun last_listed :: "(string \<times> info) list \<Rightarrow> string \<Rightarrow> string option" where
  "last_listed [] n = None"
| "last_listed ((k, v) # rest) n =
     (case last_listed rest n of
        Some k' \<Rightarrow> Some k'
      | None \<Rightarrow> if name v = Some n then Some k else None)"

text \<open>
  What one round of the loop of \<open>_cleanup_files\<close> may add to the trace for the listed item
  \<open>(j, fj)\<close>: at most one Delete, of the id the dictionary holds under the clean name of a
  stray, then requests of \<open>move_file\<close> for \<open>j\<close>; nothing at all when the dictionary holds
  \<open>j\<close> itself under its clean name. \<open>held\<close> is the dictionary as a lookup.
\<close>

definition item_events ::
  "(string \<times> info) list \<Rightarrow> string \<Rightarrow> (string \<Rightarrow> string option) \<Rightarrow> string \<times> info
     \<Rightarrow> event list \<Rightarrow> bool" where
  "item_events snapshot b held item evs =
     (\<exists>dels mv. evs = dels @ mv \<and> set mv \<subseteq> move_events (fst item) b \<and>
        (dels = [] \<or>
         (\<exists>n k. dels = [Request (Delete k)] \<and> fst item \<notin> fst ` set snapshot \<and>
                name (snd item) = Some n \<and> held (clean n) = Some k \<and> k \<noteq> fst item)) \<and>
        ((\<exists>n. name (snd item) = Some n \<and> held (clean n) = Some (fst item)) \<longrightarrow> evs = []))"

text \<open>
  What a listing of the file store under a parent holds once \<open>_get_file_info_one_page\<close>
  has turned the page into a dictionary.
\<close>

definition as_info :: "string \<times> drive_file \<Rightarrow> string \<times> info" where
  "as_info entry =
     (fst entry,
      \<lparr>kind = None, name = Some (f_name (snd entry)), mimeType = Some (f_mimeType (snd entry)),
       parent = Some (hd (f_parents (snd entry)))\<rparr>)"

definition listed :: "string \<Rightarrow> store \<Rightarrow> (string \<times> info) list" where
  "listed p st = map as_info (filter (\<lambda>entry. p \<in> set (f_parents (snd entry))) (store_files st))"

text \<open>A file after \<open>store_update\<close> has moved it from \<open>a\<close> to \<open>b\<close> under a new name.\<close>

definition moved :: "string \<Rightarrow> string \<Rightarrow> string \<Rightarrow> drive_file \<Rightarrow> drive_file" where
  "moved a b nm f = f\<lparr>f_parents := remove1 a (f_parents f) @ [b], f_name := nm\<rparr>"

text \<open>
  The two invariants of the loop of \<open>_cleanup_files\<close> on the file store, for a stray \<open>S\<close>
  to be promoted over the old entry \<open>old\<close> named \<open>X\<close> under \<open>b\<close>. Before the round of \<open>S\<close>:
  \<open>S\<close> is as it was, and as long as \<open>old\<close> exists it is the only entry named \<open>X\<close> under \<open>b\<close>.
  After it: \<open>old\<close> is gone, \<open>S\<close> is as the move left it and is the only entry named \<open>X\<close>
  under \<open>b\<close>.
\<close>

definition before_promotion ::
  "(string \<times> info) list \<Rightarrow> string \<Rightarrow> string \<Rightarrow> string \<Rightarrow> drive_file \<Rightarrow> string
     \<Rightarrow> store cloner \<Rightarrow> bool" where
  "before_promotion snapshot b X S fS old t =
     (file_info t = snapshot \<and> map_of (store_files (remote t)) S = Some fS \<and>
      (map_of (store_files (remote t)) old \<noteq> None \<longrightarrow>
         (\<forall>k f. map_of (store_files (remote t)) k = Some f \<and> b \<in> set (f_parents f) \<and>
                f_name f = X \<longrightarrow> k = old)))"

definition after_promotion ::
  "(string \<times> info) list \<Rightarrow> string \<Rightarrow> string \<Rightarrow> string \<Rightarrow> drive_file \<Rightarrow> string
     \<Rightarrow> store cloner \<Rightarrow> bool" where
  "after_promotion snapshot b X S fS' old t =
     (file_info t = snapshot \<and> map_of (store_files (remote t)) old = None \<and>
      map_of (store_files (remote t)) S = Some fS' \<and>
      (\<forall>k f. map_of (store_files (remote t)) k = Some f \<and> b \<in> set (f_parents f) \<and>
             f_name f = X \<longrightarrow> k = S))"

text \<open>
  What the rounds for the other listed items need: the item is not \<open>S\<close>, has a name and a
  mime-type, and, when it is a stray, its clean name and mime-type are not empty and the
  dictionary does not hold \<open>S\<close> under its clean name.
\<close>

definition other_item ::
  "(string \<times> info) list \<Rightarrow> (string \<times> string) list \<Rightarrow> string \<Rightarrow> string \<times> info \<Rightarrow> bool" where
  "other_item snapshot m S item =
     (fst item \<noteq> S \<and>
      (\<exists>nj mt. name (snd item) = Some nj \<and> mimeType (snd item) = Some mt \<and>
         (fst item \<notin> fst ` set snapshot \<longrightarrow>
            clean nj \<noteq> [] \<and> mt \<noteq> [] \<and> map_of m (clean nj) \<noteq> Some S)))"

section \<open>Concrete sessions and providers\<close>

text \<open>
  The inputs at which the properties below are evaluated: sessions on the file store, and
  two small providers of their own.
\<close>

text \<open>A folder with no children, to be copied into the folder \<open>D\<close>.\<close>

definition empty_folder_snapshot :: "(string \<times> info) list" where
  "empty_folder_snapshot =
     [(''R'', \<lparr>kind = None, name = Some ''reports'', mimeType = Some FOLDER_TYPE,
              parent = Some ''top''\<rparr>)]"

definition empty_folder_store :: store where
  "empty_folder_store =
     \<lparr>store_files =
        [(''R'', \<lparr>f_name = ''reports'', f_parents = [''top''], f_mimeType = FOLDER_TYPE\<rparr>),
         (''D'', \<lparr>f_name = ''backup'', f_parents = [''top''], f_mimeType = FOLDER_TYPE\<rparr>)],
      next_uuid = 0\<rparr>"

text \<open>A plain file \<open>F\<close> to be copied into the folder \<open>D\<close>.\<close>

definition single_file_snapshot :: "(string \<times> info) list" where
  "single_file_snapshot =
     [(''D'', \<lparr>kind = None, name = Some ''backup'', mimeType = Some FOLDER_TYPE,
              parent = Some ''top''\<rparr>),
      (''F'', \<lparr>kind = None, name = Some ''notes.txt'', mimeType = Some ''text/plain'',
              parent = Some ''top''\<rparr>)]"

definition single_file_store :: store where
  "single_file_store =
     \<lparr>store_files =
        [(''D'', \<lparr>f_name = ''backup'', f_parents = [''top''], f_mimeType = FOLDER_TYPE\<rparr>),
         (''F'', \<lparr>f_name = ''notes.txt'', f_parents = [''top''], f_mimeType = ''text/plain''\<rparr>)],
      next_uuid = 0\<rparr>"



text \<open>
  A folder \<open>R\<close> whose children are, in snapshot order, a plain file, a folder, a spreadsheet
  and a plain file.
\<close>

definition mixed_snapshot :: "(string \<times> info) list" where
  "mixed_snapshot =
     [(''R'', \<lparr>kind = None, name = Some ''reports'', mimeType = Some FOLDER_TYPE,
              parent = Some ''top''\<rparr>),
      (''a'', \<lparr>kind = None, name = Some ''a.txt'', mimeType = Some ''text/plain'',
              parent = Some ''R''\<rparr>),
      (''b'', \<lparr>kind = None, name = Some ''sub'', mimeType = Some FOLDER_TYPE,
              parent = Some ''R''\<rparr>),
      (''c'', \<lparr>kind = None, name = Some ''sheet'', mimeType = Some SPREADSHEET_TYPE,
              parent = Some ''R''\<rparr>),
      (''e'', \<lparr>kind = None, name = Some ''e.txt'', mimeType = Some ''text/plain'',
              parent = Some ''R''\<rparr>),
      (''D'', \<lparr>kind = None, name = Some ''backup'', mimeType = Some FOLDER_TYPE,
              parent = Some ''top''\<rparr>)]"

definition mixed_store :: store where
  "mixed_store =
     \<lparr>store_files =
        [(''R'', \<lparr>f_name = ''reports'', f_parents = [''top''], f_mimeType = FOLDER_TYPE\<rparr>),
         (''a'', \<lparr>f_name = ''a.txt'', f_parents = [''R''], f_mimeType = ''text/plain''\<rparr>),
         (''b'', \<lparr>f_name = ''sub'', f_parents = [''R''], f_mimeType = FOLDER_TYPE\<rparr>),
         (''c'', \<lparr>f_name = ''sheet'', f_parents = [''R''], f_mimeType = SPREADSHEET_TYPE\<rparr>),
         (''e'', \<lparr>f_name = ''e.txt'', f_parents = [''R''], f_mimeType = ''text/plain''\<rparr>),
         (''D'', \<lparr>f_name = ''backup'', f_parents = [''top''], f_mimeType = FOLDER_TYPE\<rparr>)],
      next_uuid = 0\<rparr>"

text \<open>The sessions that \<open>copy_item\<close> and \<open>run\<close> leave on these stores.\<close>

definition after_empty_folder :: "store cloner" where
  "after_empty_folder =
     \<lparr>remote = \<lparr>store_files = store_files empty_folder_store @
                    [(''uuid'', \<lparr>f_name = ''reports'', f_parents = [''D''],
                                 f_mimeType = FOLDER_TYPE\<rparr>)],
                  next_uuid = 1\<rparr>,
       file_info = empty_folder_snapshot,
       copied_files = {''R''},
       folders_copied = [(''R'', ''uuid'')],
       trace = [Sleep COPY_SLEEP, Request (Create ''reports'' FOLDER_TYPE ''D'')]\<rparr>"

definition after_single_file :: "store cloner" where
  "after_single_file =
     \<lparr>remote = \<lparr>store_files = store_files single_file_store @
                    [(''uuid'', \<lparr>f_name = ''notes.txt'', f_parents = [''D''],
                                 f_mimeType = ''text/plain''\<rparr>)],
                  next_uuid = 1\<rparr>,
       file_info = single_file_snapshot,
       copied_files = {''F''},
       folders_copied = [],
       trace = [Sleep COPY_SLEEP, Request (Copy ''F''),
                Request (Update ''uuid'' ''D'' ''top'' ''notes.txt''),
                Cleanup ''top'' ''D'',
                Request (List None (Some (in_parents ''top''))),
                Request (List None (Some (in_parents ''D'')))]\<rparr>"




text \<open>
  A provider whose listing has two pages whatever the query: the file \<open>A\<close> on the first, with
  the token of the second, and the file \<open>B\<close>, named as a provider-made copy, on the second.
\<close>

definition page_one :: list_response where
  "page_one =
     \<lparr>files = Some [\<lparr>r_id = Some ''A'', r_kind = None, r_name = Some ''a.txt'',
                      r_mimeType = Some ''text/plain'', r_parents = Some [''s'']\<rparr>],
      nextPageToken = Some ''page2''\<rparr>"

definition page_two :: list_response where
  "page_two =
     \<lparr>files = Some [\<lparr>r_id = Some ''B'', r_kind = None, r_name = Some ''Copy of b.txt'',
                      r_mimeType = Some ''text/plain'', r_parents = Some [''s'']\<rparr>],
      nextPageToken = None\<rparr>"

definition two_page_service :: "unit service" where
  "two_page_service =
     \<lparr>svc_list = (\<lambda>pageToken q. if pageToken = Some ''page2'' then ret page_two else ret page_one),
      svc_get = (\<lambda>fileId field_list. throw (HttpError ''get'')),
      svc_copy = (\<lambda>fileId. throw (HttpError ''copy'')),
      svc_delete = (\<lambda>fileId. ret (Some fileId)),
      svc_update = (\<lambda>fileId addParents removeParents nm. ret (Some fileId)),
      svc_create = (\<lambda>nm mime parent_id. throw (HttpError ''create''))\<rparr>"

text \<open>A file with two parents, for \<open>move_file\<close>.\<close>

definition two_parent_store :: store where
  "two_parent_store =
     \<lparr>store_files =
        [(''X'', \<lparr>f_name = ''draft'', f_parents = [''P1'', ''P2''],
                  f_mimeType = ''text/plain''\<rparr>)],
      next_uuid = 0\<rparr>"

text \<open>The dictionary entries of the files of the listings below.\<close>

definition info_A :: info where
  "info_A = \<lparr>kind = None, name = Some ''a.txt'', mimeType = Some ''text/plain'',
             parent = Some ''s''\<rparr>"

definition info_B :: info where
  "info_B = \<lparr>kind = None, name = Some ''Copy of b.txt'', mimeType = Some ''text/plain'',
             parent = Some ''s''\<rparr>"

definition info_clone :: info where
  "info_clone = \<lparr>kind = None, name = Some ''X'', mimeType = Some ''text/plain'',
                 parent = Some ''s''\<rparr>"

definition info_stray :: info where
  "info_stray = \<lparr>kind = None, name = Some ''Copy of X'', mimeType = Some ''text/plain'',
                 parent = Some ''s''\<rparr>"

definition info_old :: info where
  "info_old = \<lparr>kind = None, name = Some ''X'', mimeType = Some ''text/plain'',
               parent = Some ''d''\<rparr>"

text \<open>
  The clone \<open>clone\<close>, already moved into \<open>d\<close> and renamed, is still listed under \<open>s\<close>; a
  provider-made copy \<open>stray\<close> of the same file sits under \<open>s\<close>.
\<close>

definition lagging_store :: store where
  "lagging_store =
     \<lparr>store_files =
        [(''clone'', \<lparr>f_name = ''X'', f_parents = [''s'', ''d''], f_mimeType = ''text/plain''\<rparr>),
         (''stray'', \<lparr>f_name = ''Copy of X'', f_parents = [''s''],
                      f_mimeType = ''text/plain''\<rparr>)],
      next_uuid = 0\<rparr>"

text \<open>The same with no provider-made copy.\<close>

definition settled_store :: store where
  "settled_store =
     \<lparr>store_files =
        [(''clone'', \<lparr>f_name = ''X'', f_parents = [''s'', ''d''], f_mimeType = ''text/plain''\<rparr>)],
      next_uuid = 0\<rparr>"

text \<open>
  Two entries named \<open>X\<close> under \<open>d\<close>, and a provider-made copy of \<open>X\<close> under \<open>s\<close>.
\<close>

definition duplicate_store :: store where
  "duplicate_store =
     \<lparr>store_files =
        [(''old1'', \<lparr>f_name = ''X'', f_parents = [''d''], f_mimeType = ''text/plain''\<rparr>),
         (''old2'', \<lparr>f_name = ''X'', f_parents = [''d''], f_mimeType = ''text/plain''\<rparr>),
         (''stray'', \<lparr>f_name = ''Copy of X'', f_parents = [''s''],
                      f_mimeType = ''text/plain''\<rparr>)],
      next_uuid = 0\<rparr>"

text \<open>
  The original \<open>X\<close> under \<open>s\<close>, an earlier copy of it under \<open>d\<close>, and a provider-made copy
  under \<open>s\<close>; the snapshot knows the original only.
\<close>

definition promotion_store :: store where
  "promotion_store =
     \<lparr>store_files =
        [(''orig'', \<lparr>f_name = ''X'', f_parents = [''s''], f_mimeType = ''text/plain''\<rparr>),
         (''old'', \<lparr>f_name = ''X'', f_parents = [''d''], f_mimeType = ''text/plain''\<rparr>),
         (''stray'', \<lparr>f_name = ''Copy of X'', f_parents = [''s''],
                      f_mimeType = ''text/plain''\<rparr>)],
      next_uuid = 0\<rparr>"

definition promotion_snapshot :: "(string \<times> info) list" where
  "promotion_snapshot =
     [(''orig'', \<lparr>kind = None, name = Some ''X'', mimeType = Some ''text/plain'',
                 parent = Some ''s''\<rparr>)]"

text \<open>
  The provider-made copy \<open>stray\<close> is listed under both \<open>s\<close> and \<open>d\<close>, and a copy of that
  copy sits under \<open>s\<close>.
\<close>

definition copy_of_copy_store :: store where
  "copy_of_copy_store =
     \<lparr>store_files =
        [(''old'', \<lparr>f_name = ''X'', f_parents = [''d''], f_mimeType = ''text/plain''\<rparr>),
         (''stray'', \<lparr>f_name = ''Copy of X'', f_parents = [''s'', ''d''],
                      f_mimeType = ''text/plain''\<rparr>),
         (''second'', \<lparr>f_name = ''Copy of Copy of X'', f_parents = [''s''],
                       f_mimeType = ''text/plain''\<rparr>)],
      next_uuid = 0\<rparr>"

section \<open>Auxiliary lemmas\<close>

subsection \<open>Relations that every step keeps\<close>

lemma preservesD: "preserves R m \<Longrightarrow> m s = (r, s') \<Longrightarrow> R s s'"
  by (metis preserves_def snd_conv)

lemma preservesI: "(\<And>s r s'. m s = (r, s') \<Longrightarrow> R s s') \<Longrightarrow> preserves R m"
  by (metis preserves_def prod.collapse)

lemma preserves_ret: "reflp R \<Longrightarrow> preserves R (ret v)"
  by (simp add: preserves_def ret_def reflpD)

lemma preserves_throw: "reflp R \<Longrightarrow> preserves R (throw e)"
  by (simp add: preserves_def throw_def reflpD)

lemma preserves_getitem: "reflp R \<Longrightarrow> preserves R (getitem field key)"
  by (cases field) (simp_all add: getitem_def preserves_ret preserves_throw)

lemma preserves_seq:
  assumes "transp R" "preserves R m" "\<And>v. preserves R (f v)"
  shows "preserves R (seq m f)"
proof (rule preservesI)
  fix s r s' assume run: "seq m f s = (r, s')"
  obtain r1 s1 where m: "m s = (r1, s1)" by (cases "m s")
  have R1: "R s s1" using assms(2) m by (rule preservesD)
  show "R s s'"
  proof (cases r1)
    case (Inl e)
    with run m have "s' = s1" by (simp add: seq_def)
    with R1 show ?thesis by simp
  next
    case (Inr v)
    with run m have "f v s1 = (r, s')" by (simp add: seq_def)
    then have "R s1 s'" using assms(3) preservesD by metis
    with R1 show ?thesis using assms(1) by (meson transpD)
  qed
qed

lemma preserves_foreach:
  assumes "reflp R" "transp R" "\<And>x. x \<in> set xs \<Longrightarrow> preserves R (body x)"
  shows "preserves R (foreach xs body)"
  using assms(3)
proof (induction xs)
  case Nil
  show ?case using assms(1) by (simp add: preserves_def reflpD)
next
  case (Cons x xs)
  have step: "preserves R (body x)" using Cons.prems by simp
  have rest: "preserves R (foreach xs body)" using Cons by simp
  show ?case
  proof (rule preservesI)
    fix s r s' assume run: "foreach (x # xs) body s = (r, s')"
    obtain r1 s1 where b: "body x s = (r1, s1)" by (cases "body x s")
    have R1: "R s s1" using step b by (rule preservesD)
    show "R s s'"
    proof (cases r1)
      case (Inl e)
      with run b have "s' = s1" by simp
      with R1 show ?thesis by simp
    next
      case (Inr u)
      with run b have "foreach xs body s1 = (r, s')" by simp
      then have "R s1 s'" using rest preservesD by metis
      with R1 show ?thesis using assms(2) by (meson transpD)
    qed
  qed
qed

lemma closed_refl: "closed R A \<Longrightarrow> reflp R" and closed_trans: "closed R A \<Longrightarrow> transp R"
  by (simp_all add: closed_def)

lemma preserves_execute:
  "closed R A \<Longrightarrow> Request req \<in> A \<Longrightarrow> preserves R (execute req op)"
  by (auto simp: preserves_def closed_def execute_def split: prod.splits)

lemma preserves_emit: "closed R A \<Longrightarrow> ev \<in> A \<Longrightarrow> preserves R (emit ev)"
proof -
  assume c: "closed R A" and ev: "ev \<in> A"
  have "R s (s\<lparr>remote := remote s, trace := trace s @ [ev]\<rparr>)" for s
    using c ev unfolding closed_def by blast
  then show ?thesis by (simp add: preserves_def emit_def)
qed

lemma closed_appends: "closed (appends A) A"
  unfolding closed_def appends_def
  apply (intro conjI)
    apply (rule reflpI, simp)
   apply (rule transpI, clarsimp)
  apply (clarsimp)
  done

lemma closed_same_books: "closed same_books UNIV"
  unfolding closed_def same_books_def
  by (auto intro!: reflpI transpI)

lemma preserves_one_page:
  "closed R A \<Longrightarrow> Request (List (kwarg t) (kwarg q)) \<in> A
     \<Longrightarrow> preserves R (get_file_info_one_page P t q)"
  unfolding get_file_info_one_page_def
  by (intro preserves_seq preserves_execute[where A = A] preserves_getitem)
     (auto simp: closed_refl closed_trans preserves_ret preserves_throw split: sum.splits)

lemma preserves_fresh_listings:
  assumes "closed R A" "range Request \<subseteq> A"
  shows "preserves R (fresh_listings P a b)"
  unfolding fresh_listings_def
  by (intro preserves_seq preserves_one_page[where A = A] assms(1))
     (use assms in \<open>auto simp: closed_refl closed_trans preserves_ret split: prod.splits
        intro!: preserves_seq preserves_one_page[where A = A]\<close>)

lemma preserves_get_one:
  "closed R A \<Longrightarrow> (\<And>f. Request (Get i f) \<in> A) \<Longrightarrow> preserves R (get_one_file_info P i fl)"
  unfolding get_one_file_info_def Let_def
  by (rule preserves_execute[where A = A]) auto

lemma preserves_send_update:
  "closed R A \<Longrightarrow> Request (Update i d cp n) \<in> A \<Longrightarrow> preserves R (send_update P i d cp n)"
  unfolding send_update_def
  by (intro preserves_seq preserves_execute[where A = A] preserves_getitem)
     (auto simp: closed_refl closed_trans)

lemma preserves_move_file:
  assumes c: "closed R A" and sub: "move_events i d \<subseteq> A"
  shows "preserves R (move_file P i d cp n m)"
proof -
  have g: "\<And>f. Request (Get i f) \<in> A" and u: "\<And>cp n. Request (Update i d cp n) \<in> A"
    using sub by (auto simp: move_events_def)
  have r: "reflp R" and t: "transp R" using c by (simp_all add: closed_refl closed_trans)
  have su: "\<And>cp n. preserves R (send_update P i d cp n)"
    using c u by (rule preserves_send_update)
  have hd: "preserves R (case ps of [] \<Rightarrow> throw IndexError | p # x \<Rightarrow> ret p)" for ps :: "string list"
    by (cases ps) (simp_all add: preserves_throw preserves_ret r)
  show ?thesis
    unfolding move_file_def
    by (simp add: preserves_seq preserves_get_one[OF c g] preserves_getitem r t su hd)
qed

lemma preserves_delete_file:
  "closed R A \<Longrightarrow> Request (Delete k) \<in> A \<Longrightarrow> preserves R (delete_file P k)"
  unfolding delete_file_def by (rule preserves_execute)

lemma preserves_clone_file:
  "closed R A \<Longrightarrow> Request (Copy k) \<in> A \<Longrightarrow> preserves R (clone_file P k)"
  unfolding clone_file_def by (rule preserves_execute)

lemma preserves_create_folder:
  "closed R A \<Longrightarrow> Request (Create n FOLDER_TYPE d) \<in> A \<Longrightarrow> preserves R (create_folder P d n)"
  unfolding create_folder_def
  by (intro preserves_seq preserves_execute[where A = A] preserves_getitem)
     (auto simp: closed_refl closed_trans)

lemma preserves_cleanup_one:
  assumes c: "closed R A" and sub: "range Request \<subseteq> A"
  shows "preserves R (cleanup_one P a b m item)"
proof -
  obtain j fj where item: "item = (j, fj)" by (cases item)
  have r: "reflp R" and t: "transp R" using c by (simp_all add: closed_refl closed_trans)
  have mv: "\<And>cp n mt. preserves R (move_file P j b cp n mt)"
    using c sub by (intro preserves_move_file[where A = A]) (auto simp: move_events_def)
  have del: "\<And>k. preserves R (delete_file P k)"
    using c sub by (intro preserves_delete_file[where A = A]) auto
  have move: "preserves R (seq (getitem (mimeType fj) ''mimeType'')
       (\<lambda>mime_type. seq (move_file P j b (Some a) (Some cn) (Some mime_type)) (\<lambda>moved. ret ())))" for cn
    by (intro preserves_seq preserves_getitem mv preserves_ret r t)
  have body: "preserves R (\<lambda>s. if j \<notin> fst ` set (file_info s)
             then (let clean_name = clean nm;
                    move = seq (getitem (mimeType fj) ''mimeType'')
                             (\<lambda>mime_type.
                                seq (move_file P j b (Some a) (Some clean_name) (Some mime_type))
                                  (\<lambda>moved. ret ()))
                in case map_of m clean_name of
                     Some id_to_delete \<Rightarrow>
                       if id_to_delete = j then ret () s
                       else seq (delete_file P id_to_delete) (\<lambda>deleted. move) s
                   | None \<Rightarrow> move s)
             else ret () s)" for nm
  proof (rule preservesI)
    fix s r' s'
    assume run: "(if j \<notin> fst ` set (file_info s)
             then (let clean_name = clean nm;
                    move = seq (getitem (mimeType fj) ''mimeType'')
                             (\<lambda>mime_type.
                                seq (move_file P j b (Some a) (Some clean_name) (Some mime_type))
                                  (\<lambda>moved. ret ()))
                in case map_of m clean_name of
                     Some id_to_delete \<Rightarrow>
                       if id_to_delete = j then ret () s
                       else seq (delete_file P id_to_delete) (\<lambda>deleted. move) s
                   | None \<Rightarrow> move s)
             else ret () s) = (r', s')"
    have dm: "preserves R (seq (delete_file P k) (\<lambda>deleted. seq (getitem (mimeType fj) ''mimeType'')
       (\<lambda>mime_type. seq (move_file P j b (Some a) (Some cn) (Some mime_type)) (\<lambda>moved. ret ()))))" for k cn
      by (intro preserves_seq del move t)
    from run show "R s s'"
      by (auto simp: Let_def ret_def reflpD[OF r] split: if_splits option.splits
               dest: preservesD[OF move] preservesD[OF dm])
  qed
  show ?thesis
    unfolding cleanup_one_def item prod.case
    by (intro preserves_seq preserves_getitem body r t)
qed

lemma preserves_cleanup_loop:
  assumes c: "closed R A" and sub: "range Request \<subseteq> A"
  shows "preserves R (cleanup_loop P a b cur dst)"
  unfolding cleanup_loop_def
  by (cases "name_to_id dst []")
     (simp_all add: preserves_throw preserves_foreach preserves_cleanup_one[OF c sub]
        closed_refl[OF c] closed_trans[OF c])

lemma preserves_cleanup_files:
  assumes c: "closed R A" and sub: "range Request \<subseteq> A" and ev: "Cleanup a b \<in> A"
  shows "preserves R (cleanup_files P a b)"
  unfolding cleanup_files_def
  by (intro preserves_seq preserves_emit[OF c ev] preserves_fresh_listings[OF c sub]
        closed_trans[OF c])
     (auto simp: preserves_cleanup_loop[OF c sub] split: prod.splits)

subsection \<open>The invariants of the data model\<close>

lemma seqE:
  assumes "seq m f s = (r, s')"
  obtains (raised) e where "m s = (Inl e, s')" "r = Inl e"
        | (continued) v s1 where "m s = (Inr v, s1)" "f v s1 = (r, s')"
proof -
  obtain r1 s1 where m: "m s = (r1, s1)" by (cases "m s")
  show thesis
  proof (cases r1)
    case (Inl e)
    with assms m have "s' = s1" "r = Inl e" by (simp_all add: seq_def)
    with m Inl show thesis using raised by simp
  next
    case (Inr v)
    with assms m have "f v s1 = (r, s')" by (simp add: seq_def)
    with m Inr show thesis using continued by simp
  qed
qed

lemma take_length_eq: "(take (length xs) ys = xs) = (\<exists>zs. ys = xs @ zs)"
  by (metis append_eq_conv_conj)

lemma session_inv_iff:
  "session_inv s s' =
     (file_info s' = file_info s \<and> copied_files s \<subseteq> copied_files s' \<and>
      (\<exists>new. folders_copied s' = folders_copied s @ new \<and>
         (\<forall>(item_id, created) \<in> set new. is_folder (file_info s) item_id)))"
  unfolding session_inv_def take_length_eq by auto

lemma session_inv_refl: "session_inv s s"
  by (simp add: session_inv_def)

lemma session_inv_trans: "session_inv s s1 \<Longrightarrow> session_inv s1 s2 \<Longrightarrow> session_inv s s2"
  unfolding session_inv_iff by (elim conjE exE) (auto; fastforce)

lemma closed_session_inv: "closed session_inv UNIV"
  unfolding closed_def
  by (auto intro!: reflpI transpI session_inv_refl elim: session_inv_trans simp: session_inv_def)

lemmas inv_refl = closed_refl[OF closed_session_inv]

lemmas inv_trans = closed_trans[OF closed_session_inv]

lemma inv_lookup: "preserves session_inv (lookup i)"
  by (auto simp: preserves_def lookup_def getitem_def throw_def ret_def session_inv_refl
      split: option.splits)

lemma inv_mark_copied: "preserves session_inv (mark_copied i)"
  by (auto simp: preserves_def mark_copied_def session_inv_def)

lemma inv_sleep: "preserves session_inv (sleep n)"
  unfolding sleep_def by (rule preserves_emit[OF closed_session_inv]) simp

lemma inv_cleanup_files: "preserves session_inv (cleanup_files P a b)"
  by (rule preserves_cleanup_files[OF closed_session_inv]) simp_all

lemma inv_move_file: "preserves session_inv (move_file P i d cp n m)"
  by (rule preserves_move_file[OF closed_session_inv]) simp

lemma inv_create_folder: "preserves session_inv (create_folder P d n)"
  by (rule preserves_create_folder[OF closed_session_inv]) simp

lemma inv_copy_file: "preserves session_inv (copy_file P i d)"
  unfolding copy_file_def
  by (intro preserves_seq preserves_clone_file[OF closed_session_inv] inv_lookup
        preserves_getitem inv_move_file inv_mark_copied inv_cleanup_files preserves_ret
        inv_refl inv_trans)
     (simp_all add: inv_sleep preserves_ret inv_refl)

lemma inv_record_folder:
  "is_folder (file_info s) i \<Longrightarrow> session_inv s (snd (record_folder i c s))"
  by (simp add: record_folder_def session_inv_def subset_insertI)

lemma inv_copy_item_body:
  assumes rec: "\<And>i c n. preserves session_inv (recurse i c n)"
  shows "preserves session_inv (copy_item_body P recurse item d nn)"
proof (rule preservesI)
  fix s r s'
  assume run: "copy_item_body P recurse item d nn s = (r, s')"
  have loop: "preserves session_inv (foreach xs (\<lambda>(file_id, created).
                 seq (recurse file_id created None) (\<lambda>r. ret ())))" for xs
    by (rule preserves_foreach[OF inv_refl inv_trans])
       (auto intro!: preserves_seq rec preserves_ret inv_refl inv_trans)
  from run show "session_inv s s'"
    unfolding copy_item_body_def
  proof (cases rule: seqE)
    case (raised e)
    then show ?thesis using preservesD[OF inv_sleep] by blast
  next
    case (continued u s1)
    have s1: "session_inv s s1" using continued(1) preservesD[OF inv_sleep] by blast
    from continued(2) show ?thesis
    proof (cases rule: seqE)
      case (raised e)
      then have "session_inv s1 s'" using preservesD[OF inv_lookup] by blast
      with s1 show ?thesis by (rule session_inv_trans)
    next
      case (continued item_info s2)
      then have s2: "s2 = s1" and info: "map_of (file_info s1) item = Some item_info"
        by (auto simp: lookup_def getitem_def throw_def ret_def split: option.splits)
      from continued(2) show ?thesis
      proof (cases rule: seqE)
        case (raised e)
        then have "s' = s1" using s2 by (auto simp: getitem_def throw_def ret_def split: option.splits)
        with s1 show ?thesis by simp
      next
        case (continued nm s3)
        then have s3: "s3 = s1" using s2
          by (auto simp: getitem_def throw_def ret_def split: option.splits)
        from continued(2) show ?thesis
        proof (cases rule: seqE)
          case (raised e)
          then have "s' = s1" using s3 by (auto simp: getitem_def throw_def ret_def split: option.splits)
          with s1 show ?thesis by simp
        next
          case (continued mime s4)
          then have s4: "s4 = s1" and mime: "mimeType item_info = Some mime" using s3
            by (auto simp: getitem_def throw_def ret_def split: option.splits)
          show ?thesis
          proof (cases "item \<in> copied_files s1")
            case True
            with continued(2) s4 have "s' = s1" by (simp add: ret_def)
            with s1 show ?thesis by simp
          next
            case notcopied: False
            show ?thesis
            proof (cases "mime = FOLDER_TYPE")
              case False
              with continued(2) s4 notcopied
              have "seq (copy_file P item d) (\<lambda>moved. ret (Some moved)) s1 = (r, s')" by simp
              moreover have "preserves session_inv
                  (seq (copy_file P item d) (\<lambda>moved. ret (Some moved)))"
                by (intro preserves_seq inv_trans inv_copy_file preserves_ret inv_refl)
              ultimately have "session_inv s1 s'" by (rule preservesD[rotated])
              with s1 show ?thesis by (rule session_inv_trans)
            next
              case True
              have folder: "is_folder (file_info s1) item"
                using info mime True by (simp add: is_folder_def)
              from continued(2) s4 notcopied True
              have "seq (create_folder P d (if truthy nn then the nn else nm))
                       (\<lambda>created_folder_id s'.
                          case collect_children item created_folder_id (file_info s') [] of
                            Inl e \<Rightarrow> throw e s'
                          | Inr child_files_to_copy \<Rightarrow>
                              seq (foreach (in_priority_order child_files_to_copy)
                                     (\<lambda>(file_id, created).
                                        seq (recurse file_id created None) (\<lambda>r. ret ())))
                                (\<lambda>u. seq (record_folder item created_folder_id)
                                   (\<lambda>u. ret (Some created_folder_id))) s') s1 = (r, s')"
                by simp
              then have "session_inv s1 s'"
              proof (cases rule: seqE)
                case (raised e)
                then show ?thesis using preservesD[OF inv_create_folder] by blast
              next
                case (continued created s5)
                have s5: "session_inv s1 s5"
                  using continued(1) preservesD[OF inv_create_folder] by blast
                show ?thesis
                proof (cases "collect_children item created (file_info s5) []")
                  case (Inl e)
                  with continued(2) have "s' = s5" by (simp add: throw_def)
                  with s5 show ?thesis by simp
                next
                  case (Inr groups)
                  with continued(2)
                  have "seq (foreach (in_priority_order groups)
                                     (\<lambda>(file_id, created).
                                        seq (recurse file_id created None) (\<lambda>r. ret ())))
                                (\<lambda>u. seq (record_folder item created)
                                   (\<lambda>u. ret (Some created))) s5 = (r, s')" by simp
                  then show ?thesis
                  proof (cases rule: seqE)
                    case (raised e)
                    then have "session_inv s5 s'" using preservesD[OF loop] by blast
                    with s5 show ?thesis by (rule session_inv_trans)
                  next
                    case (continued u s6)
                    have s6: "session_inv s5 s6" using continued(1) preservesD[OF loop] by blast
                    have s16: "session_inv s1 s6" using s5 s6 by (rule session_inv_trans)
                    then have "is_folder (file_info s6) item"
                      using folder by (simp add: session_inv_def)
                    then have "session_inv s6 (snd (record_folder item created s6))"
                      by (rule inv_record_folder)
                    moreover have "s' = snd (record_folder item created s6)"
                      using continued(2) by (simp add: seq_def record_folder_def ret_def)
                    ultimately show ?thesis using s16 session_inv_trans by blast
                  qed
                qed
              qed
              with s1 show ?thesis by (rule session_inv_trans)
            qed
          qed
        qed
      qed
    qed
  qed
qed

lemma inv_copy_item: "preserves session_inv (copy_item P depth item d nn)"
proof (induction depth arbitrary: item d nn)
  case 0
  show ?case by (simp add: inv_copy_item_body preserves_throw inv_refl)
next
  case (Suc depth)
  show ?case by (simp add: inv_copy_item_body Suc)
qed

lemma inv_run_cleanup: "preserves session_inv (run_cleanup P)"
proof (rule preservesI)
  fix s r s' assume "run_cleanup P s = (r, s')"
  then show "session_inv s s'"
    unfolding run_cleanup_def
    by (rule preservesD[OF preserves_foreach[OF inv_refl inv_trans], rotated])
       (auto simp: inv_cleanup_files)
qed

lemma inv_run: "preserves session_inv (run P depth b d nn)"
proof (rule preservesI)
  fix s r s' assume run: "run P depth b d nn s = (r, s')"
  obtain outcome s1 where ci: "copy_item P depth b d nn s = (outcome, s1)"
    by (cases "copy_item P depth b d nn s")
  obtain sw s2 where sweep: "seq (sleep CLEANUP_SLEEP) (\<lambda>u. run_cleanup P) s1 = (sw, s2)"
    by (cases "seq (sleep CLEANUP_SLEEP) (\<lambda>u. run_cleanup P) s1")
  have "s' = s2" using run ci sweep by (auto simp: run_def split: sum.splits)
  moreover have "session_inv s s1" using ci by (rule preservesD[OF inv_copy_item])
  moreover have "session_inv s1 s2"
    using sweep by (rule preservesD[OF preserves_seq[OF inv_trans inv_sleep], rotated])
      (simp add: inv_run_cleanup)
  ultimately show "session_inv s s'" using session_inv_trans by blast
qed

subsection \<open>Unfolding the model on concrete inputs\<close>

lemmas prog_defs = Let_def seq_def ret_def throw_def getitem_def emit_def sleep_def execute_def
  truthy_def kwarg_def lookup_def mark_copied_def record_folder_def

lemmas cloner_defs = get_file_info_one_page_def add_file_def override_def no_info_def
  clone_file_def delete_file_def get_one_file_info_def send_update_def move_file_def
  create_folder_def fresh_listings_def cleanup_loop_def cleanup_one_def cleanup_files_def
  clean_def startswith_def prefix_def in_parents_def copy_file_def copy_item_body_def
  priority_of_def append_to_def priorities_def in_priority_order_def MIME_TYPE_ORDER_def
  run_cleanup_def run_def new_session_def FOLDER_TYPE_def SPREADSHEET_TYPE_def
  COPY_SLEEP_def CLEANUP_SLEEP_def SPREADSHEET_SLEEP_def

lemmas store_defs = store_service_def store_list_def store_get_def store_copy_def
  store_delete_def store_update_def store_create_def to_raw_def matches_query_def uuid_def

lemma preserves_snd: "preserves R m \<Longrightarrow> R s (snd (m s))"
  by (simp add: preserves_def)

lemma run_empty_folder:
  "run store_service 0 ''R'' ''D'' None (new_session empty_folder_store empty_folder_snapshot) =
     (Inr (Some ''uuid''),
      \<lparr>remote = \<lparr>store_files = store_files empty_folder_store @
                    [(''uuid'', \<lparr>f_name = ''reports'', f_parents = [''D''],
                                 f_mimeType = FOLDER_TYPE\<rparr>)],
                  next_uuid = 1\<rparr>,
       file_info = empty_folder_snapshot,
       copied_files = {''R''},
       folders_copied = [(''R'', ''uuid'')],
       trace = [Sleep COPY_SLEEP, Request (Create ''reports'' FOLDER_TYPE ''D''),
                Sleep CLEANUP_SLEEP, Cleanup ''R'' ''uuid'',
                Request (List None (Some (in_parents ''R''))),
                Request (List None (Some (in_parents ''uuid'')))]\<rparr>)"
  by (simp add: prog_defs cloner_defs store_defs empty_folder_store_def empty_folder_snapshot_def)

lemma copy_item_empty_folder:
  "copy_item store_service 0 ''R'' ''D'' None (new_session empty_folder_store empty_folder_snapshot)
     = (Inr (Some ''uuid''), after_empty_folder)"
  by (simp add: prog_defs cloner_defs store_defs empty_folder_store_def empty_folder_snapshot_def
        after_empty_folder_def)

lemma copy_item_single_file:
  "copy_item store_service 0 ''F'' ''D'' None (new_session single_file_store single_file_snapshot)
     = (Inr (Some ''uuid''), after_single_file)"
  by (simp add: prog_defs cloner_defs store_defs single_file_store_def single_file_snapshot_def
        after_single_file_def)

subsection \<open>An item already copied\<close>

lemma copy_item_copied:
  assumes "item \<in> copied_files s" "map_of (file_info s) item = Some fi"
    "name fi = Some n" "mimeType fi = Some m"
  shows "copy_item P depth item d nn s = (Inr None, s\<lparr>trace := trace s @ [Sleep COPY_SLEEP]\<rparr>)"
  using assms
  by (cases depth)
     (simp_all add: copy_item_body_def seq_def sleep_def emit_def lookup_def getitem_def ret_def)

lemma copy_item_absent:
  assumes "map_of (file_info s) item = None"
  shows "copy_item P depth item d nn s =
           (Inl (KeyError item), s\<lparr>trace := trace s @ [Sleep COPY_SLEEP]\<rparr>)"
  using assms
  by (cases depth)
     (simp_all add: copy_item_body_def seq_def sleep_def emit_def lookup_def getitem_def
        throw_def)

lemma seq_InrE:
  assumes "seq m f s = (Inr k, s')"
  obtains v s1 where "m s = (Inr v, s1)" "f v s1 = (Inr k, s')"
  using assms by (cases rule: seqE) auto

lemma copy_file_returned:
  assumes "copy_file P item d s = (Inr k, s')"
  shows "item \<in> copied_files s'"
  using assms unfolding copy_file_def
  by (elim seq_InrE)
     (auto simp: mark_copied_def ret_def session_inv_def dest!: preservesD[OF inv_cleanup_files])

lemma copy_item_body_returned:
  assumes "copy_item_body P recurse item d nn s = (Inr (Some k), s')"
  shows "item \<in> copied_files s' \<and>
         (\<exists>fi n m. map_of (file_info s) item = Some fi \<and> name fi = Some n \<and> mimeType fi = Some m)"
  using assms unfolding copy_item_body_def
  apply (elim seq_InrE)
  apply (auto simp: sleep_def emit_def lookup_def getitem_def ret_def throw_def record_folder_def
      split: option.splits if_splits sum.splits elim!: seq_InrE dest: copy_file_returned)
  done

lemma copy_item_returned:
  assumes "copy_item P depth item d nn s = (Inr (Some k), s')"
  shows "item \<in> copied_files s' \<and>
         (\<exists>fi n m. map_of (file_info s) item = Some fi \<and> name fi = Some n \<and> mimeType fi = Some m)"
  using assms by (cases depth) (auto dest: copy_item_body_returned)

subsection \<open>The sweep of \<open>run\<close>\<close>








subsection \<open>\<open>move_file\<close> with all three values supplied\<close>

lemma move_file_supplied:
  assumes "truthy current_parent_id" "truthy nm" "truthy mime_type"
  shows "move_file P file_id dest current_parent_id nm mime_type =
           send_update P file_id dest (the current_parent_id) (the nm)"
  using assms by (simp add: move_file_def)

subsection \<open>The order of the children\<close>

lemma priority_of_cases:
  "priority_of m = (if m = FOLDER_TYPE then 1 else if m = SPREADSHEET_TYPE then 0 else - 1)"
  by (simp add: priority_of_def MIME_TYPE_ORDER_def FOLDER_TYPE_def SPREADSHEET_TYPE_def)

lemma priority_of_eq:
  "priority_of m = 1 \<longleftrightarrow> m = FOLDER_TYPE"
  "priority_of m = 0 \<longleftrightarrow> m = SPREADSHEET_TYPE"
  "priority_of m = - 1 \<longleftrightarrow> m \<noteq> FOLDER_TYPE \<and> m \<noteq> SPREADSHEET_TYPE"
  by (auto simp: priority_of_def MIME_TYPE_ORDER_def FOLDER_TYPE_def SPREADSHEET_TYPE_def)

lemma priority_of_range: "priority_of m \<in> {- 1, 0, 1}"
  by (simp add: priority_of_cases)

lemma group_append_to:
  "group (append_to p x groups) q = (if q = p then group groups p @ [x] else group groups q)"
  by (simp add: group_def append_to_def update_conv')

lemma keys_append_to: "fst ` set (append_to p x groups) = insert p (fst ` set groups)"
proof -
  have "set (map fst (append_to p x groups)) = insert p (set (map fst groups))"
    by (auto simp: append_to_def update_keys)
  then show ?thesis by simp
qed

lemma distinct_append_to: "distinct (map fst groups) \<Longrightarrow> distinct (map fst (append_to p x groups))"
  by (simp add: append_to_def distinct_update)

lemma collect_children_groups:
  assumes "collect_children item cr xs groups = Inr groups'"
  shows "group groups' p = group groups p @
           map (\<lambda>(i, f). (i, cr))
             (filter (\<lambda>(i, f). \<exists>m. mimeType f = Some m \<and> priority_of m = p) (children_of item xs))"
    and "fst ` set groups \<subseteq> {- 1, 0, 1} \<Longrightarrow> fst ` set groups' \<subseteq> {- 1, 0, 1}"
    and "distinct (map fst groups) \<Longrightarrow> distinct (map fst groups')"
  using assms
proof (induction xs arbitrary: groups)
  case Nil
  { case 1 then show ?case by (simp add: children_of_def) }
  { case 2 then show ?case by simp }
  { case 3 then show ?case by simp }
next
  case (Cons x xs)
  obtain i f where x: "x = (i, f)" by (cases x)
  { case 1
    show ?case
    proof (cases "parent f = Some item")
      case False
      with 1 x have "collect_children item cr xs groups = Inr groups'" by simp
      from Cons.IH(1)[OF this] show ?thesis using False x by (simp add: children_of_def)
    next
      case True
      with 1 x obtain m where m: "mimeType f = Some m"
        and rest: "collect_children item cr xs (append_to (priority_of m) (i, cr) groups) = Inr groups'"
        by (auto split: option.splits)
      from Cons.IH(1)[OF rest] show ?thesis
        using True x m by (auto simp: children_of_def group_append_to)
    qed }
  { case 2
    show ?case
    proof (cases "parent f = Some item")
      case False
      with 2 x have "collect_children item cr xs groups = Inr groups'" by simp
      from Cons.IH(2)[OF 2(1) this] show ?thesis .
    next
      case True
      with 2 x obtain m where m: "mimeType f = Some m"
        and rest: "collect_children item cr xs (append_to (priority_of m) (i, cr) groups) = Inr groups'"
        by (auto split: option.splits)
      have "fst ` set (append_to (priority_of m) (i, cr) groups) \<subseteq> {- 1, 0, 1}"
        using 2(1) priority_of_range[of m] by (simp add: keys_append_to)
      from Cons.IH(2)[OF this rest] show ?thesis .
    qed }
  { case 3
    show ?case
    proof (cases "parent f = Some item")
      case False
      with 3 x have "collect_children item cr xs groups = Inr groups'" by simp
      from Cons.IH(3)[OF 3(1) this] show ?thesis .
    next
      case True
      with 3 x obtain m where m: "mimeType f = Some m"
        and rest: "collect_children item cr xs (append_to (priority_of m) (i, cr) groups) = Inr groups'"
        by (auto split: option.splits)
      from Cons.IH(3)[OF distinct_append_to[OF 3(1)] rest] show ?thesis .
    qed }
qed

lemma collect_children_mime:
  assumes "collect_children item cr xs groups = Inr groups'"
  shows "\<forall>(i, f) \<in> set (children_of item xs). mimeType f \<noteq> None"
  using assms
  by (induction xs arbitrary: groups)
     (auto simp: children_of_def split: if_splits option.splits)

lemma in_priority_order_groups:
  assumes "distinct (map fst groups)" "fst ` set groups \<subseteq> {- 1, 0, 1}"
  shows "in_priority_order groups = group groups 1 @ group groups 0 @ group groups (- 1)"
proof -
  let ?ks = "map fst groups"
  have "sort ?ks = filter (\<lambda>p. p \<in> set ?ks) [- 1, 0, 1]"
  proof (rule sorted_distinct_set_unique)
    have sub: "set ?ks \<subseteq> set [- 1, 0, 1]" using assms(2) by simp
    show "set (sort ?ks) = set (filter (\<lambda>p. p \<in> set ?ks) [- 1, 0, 1])"
      unfolding set_sort set_filter using sub by blast
  qed (use assms(1) in \<open>simp_all\<close>)
  then have "rev (sort ?ks) = filter (\<lambda>p. p \<in> set ?ks) [1, 0, - 1]"
    by (simp add: rev_filter)
  moreover have "group groups p = []" if "p \<notin> set ?ks" for p
  proof -
    have "map_of groups p = None" using that by (simp add: map_of_eq_None_iff)
    then show ?thesis by (simp add: group_def)
  qed
  ultimately show ?thesis
    unfolding in_priority_order_def priorities_def group_def[symmetric] by auto
qed

lemma collected_order:
  assumes run: "collect_children item created snapshot [] = Inr groups"
  shows "in_priority_order groups =
           map (\<lambda>(file_id, f). (file_id, created)) (folders_first (children_of item snapshot))"
proof -
  let ?cs = "children_of item snapshot"
  let ?pick = "\<lambda>p. filter (\<lambda>(i, f). \<exists>m. mimeType f = Some m \<and> priority_of m = p) ?cs"
  have g: "group groups p = map (\<lambda>(i, f). (i, created)) (?pick p)" for p
    using collect_children_groups(1)[OF run, of p] by (simp add: group_def)
  have "distinct (map fst groups)" "fst ` set groups \<subseteq> {- 1, 0, 1}"
    using collect_children_groups(2,3)[OF run] by simp_all
  then have order: "in_priority_order groups =
      map (\<lambda>(i, f). (i, created)) (?pick 1 @ ?pick 0 @ ?pick (- 1))"
    by (simp add: in_priority_order_groups g)
  have some: "\<forall>(i, f) \<in> set ?cs. mimeType f \<noteq> None"
    using run by (rule collect_children_mime)
  have "?pick 1 = filter (\<lambda>(i, f). mimeType f = Some FOLDER_TYPE) ?cs"
    by (rule filter_cong) (auto simp: priority_of_eq)
  moreover have "?pick 0 = filter (\<lambda>(i, f). mimeType f = Some SPREADSHEET_TYPE) ?cs"
    by (rule filter_cong) (auto simp: priority_of_eq)
  moreover have "?pick (- 1) = filter (\<lambda>(i, f). mimeType f \<noteq> Some FOLDER_TYPE \<and>
                             mimeType f \<noteq> Some SPREADSHEET_TYPE) ?cs"
    using some by (intro filter_cong) (auto simp: priority_of_eq)
  ultimately show ?thesis using order by (simp add: folders_first_def)
qed

lemma mixed_groups:
  "collect_children ''R'' ''uuid'' mixed_snapshot [] =
     Inr [(- 1, [(''a'', ''uuid''), (''e'', ''uuid'')]), (1, [(''b'', ''uuid'')]),
          (0, [(''c'', ''uuid'')])]"
  by (simp add: mixed_snapshot_def priority_of_cases append_to_def FOLDER_TYPE_def
        SPREADSHEET_TYPE_def)

lemma mixed_trace:
  "creates_and_copies
     (trace (snd (copy_item store_service 1 ''R'' ''D'' None
                    (new_session mixed_store mixed_snapshot)))) =
     [Create ''reports'' FOLDER_TYPE ''D'', Create ''sub'' FOLDER_TYPE ''uuid'',
      Copy ''c'', Copy ''a'', Copy ''e'']"
  by (simp add: prog_defs cloner_defs store_defs mixed_store_def mixed_snapshot_def)

lemma collect_children_total:
  assumes "\<forall>(i, f) \<in> set (children_of item snapshot). mimeType f \<noteq> None"
  shows "\<exists>groups. collect_children item created snapshot acc = Inr groups"
  using assms
proof (induction snapshot arbitrary: acc)
  case Nil
  then show ?case by simp
next
  case (Cons x snapshot)
  obtain i f where x: "x = (i, f)" by (cases x)
  have rest: "\<forall>(i, f) \<in> set (children_of item snapshot). mimeType f \<noteq> None"
    using Cons.prems by (auto simp: children_of_def)
  show ?case
  proof (cases "parent f = Some item")
    case True
    then obtain m where "mimeType f = Some m"
      using Cons.prems x by (auto simp: children_of_def)
    then show ?thesis using True x Cons.IH[OF rest] by simp
  next
    case False
    then show ?thesis using x Cons.IH[OF rest] by simp
  qed
qed

lemma create_folder_file_info:
  "create_folder P d n s = (r, s') \<Longrightarrow> file_info s' = file_info s"
  by (auto simp: create_folder_def seq_def execute_def getitem_def ret_def throw_def
      split: prod.splits sum.splits option.splits)

lemma copy_item_body_folder:
  assumes item: "map_of (file_info s) item = Some fi" "name fi = Some n"
      "mimeType fi = Some FOLDER_TYPE" "item \<notin> copied_files s"
    and children: "\<forall>(i, f) \<in> set (children_of item (file_info s)). mimeType f \<noteq> None"
  shows "copy_item_body P recurse item dest new_name s =
           seq (create_folder P dest (if truthy new_name then the new_name else n))
             (\<lambda>created.
                seq (foreach (map (\<lambda>(file_id, f). (file_id, created))
                                (folders_first (children_of item (file_info s))))
                       (\<lambda>(file_id, created). seq (recurse file_id created None) (\<lambda>r. ret ())))
                  (\<lambda>u. seq (record_folder item created) (\<lambda>u. ret (Some created))))
             (s\<lparr>trace := trace s @ [Sleep COPY_SLEEP]\<rparr>)"
proof -
  let ?s0 = "s\<lparr>trace := trace s @ [Sleep COPY_SLEEP]\<rparr>"
  let ?nm = "if truthy new_name then the new_name else n"
  let ?loop = "\<lambda>created order.
                seq (foreach order
                       (\<lambda>(file_id, created). seq (recurse file_id created None) (\<lambda>r. ret ())))
                  (\<lambda>u. seq (record_folder item created) (\<lambda>u. ret (Some created)))"
  have body: "copy_item_body P recurse item dest new_name s =
      seq (create_folder P dest ?nm)
        (\<lambda>created s'. case collect_children item created (file_info s') [] of
                         Inl e \<Rightarrow> throw e s'
                       | Inr groups \<Rightarrow> ?loop created (in_priority_order groups) s') ?s0"
    using item
    by (simp add: copy_item_body_def seq_def sleep_def emit_def lookup_def getitem_def ret_def)
  show ?thesis
  proof (cases "create_folder P dest ?nm ?s0")
    case (Pair r s1)
    have fi: "file_info s1 = file_info s"
      using create_folder_file_info[OF Pair] by simp
    show ?thesis
    proof (cases r)
      case (Inl e)
      then show ?thesis using Pair body by (simp add: seq_def)
    next
      case (Inr created)
      obtain groups where g: "collect_children item created (file_info s) [] = Inr groups"
        using collect_children_total[OF children] by blast
      have "in_priority_order groups =
              map (\<lambda>(file_id, f). (file_id, created)) (folders_first (children_of item (file_info s)))"
        using g by (rule collected_order)
      then show ?thesis using Pair Inr body g fi by (simp add: seq_def)
    qed
  qed
qed

lemma mixed_order:
  "map (\<lambda>(file_id, f). (file_id, created)) (folders_first (children_of ''R'' mixed_snapshot)) =
     [(''b'', created), (''c'', created), (''a'', created), (''e'', created)]"
  by (simp add: folders_first_def children_of_def mixed_snapshot_def FOLDER_TYPE_def
        SPREADSHEET_TYPE_def)

subsection \<open>The trace of one pass of \<open>_cleanup_files\<close>\<close>

lemma name_to_id_last:
  assumes "name_to_id dst acc = Inr m"
  shows "map_of m n = (case last_listed dst n of Some k \<Rightarrow> Some k | None \<Rightarrow> map_of acc n)"
  using assms
proof (induction dst arbitrary: acc)
  case Nil
  then show ?case by simp
next
  case (Cons x dst)
  obtain k v where x: "x = (k, v)" by (cases x)
  with Cons.prems obtain nm where nm: "name v = Some nm"
    and rest: "name_to_id dst (AList.update nm k acc) = Inr m"
    by (auto split: option.splits)
  from Cons.IH[OF rest] show ?case
    using x nm by (auto simp: update_conv' split: option.splits)
qed

lemma name_to_id_last_listed: "name_to_id dst [] = Inr m \<Longrightarrow> map_of m n = last_listed dst n"
  by (drule name_to_id_last[where n = n]) (simp split: option.splits)

lemma last_listed_in:
  "last_listed dst n = Some k \<Longrightarrow> \<exists>v. (k, v) \<in> set dst \<and> name v = Some n"
  by (induction dst) (auto split: option.splits if_splits)

lemma add_file_distinct:
  "add_file f acc = Inr acc' \<Longrightarrow> distinct (map fst acc) \<Longrightarrow> distinct (map fst acc')"
  by (auto simp: add_file_def Let_def distinct_update split: option.splits list.splits if_splits)

lemma add_files_distinct:
  "add_files fs acc = Inr acc' \<Longrightarrow> distinct (map fst acc) \<Longrightarrow> distinct (map fst acc')"
proof (induction fs arbitrary: acc)
  case Nil
  then show ?case by simp
next
  case (Cons f fs)
  then show ?case by (auto split: sum.splits dest: add_file_distinct)
qed

lemma one_page_distinct:
  assumes "get_file_info_one_page P t q s = (Inr (d, tok), s')"
  shows "distinct (map fst d)"
  using assms unfolding get_file_info_one_page_def
  by (elim seq_InrE) (auto simp: ret_def throw_def split: sum.splits dest: add_files_distinct)

lemma fresh_listings_distinct:
  assumes "fresh_listings P a b s = (Inr (cur, dst), s')"
  shows "distinct (map fst cur)" "distinct (map fst dst)"
  using assms unfolding fresh_listings_def
  by (auto elim!: seq_InrE simp: ret_def split: prod.splits dest: one_page_distinct)

lemma foreach_events:
  assumes step: "\<And>x t r t'. x \<in> set xs \<Longrightarrow> I t \<Longrightarrow> body x t = (r, t')
                   \<Longrightarrow> I t' \<and> (\<exists>evs. trace t' = trace t @ evs \<and> Q x evs)"
    and "I s" and "foreach xs body s = (r, s')"
  shows "I s' \<and> (\<exists>evss. trace s' = trace s @ concat evss \<and> length evss \<le> length xs \<and>
                    list_all2 Q (take (length evss) xs) evss)"
  using assms
proof (induction xs arbitrary: s)
  case Nil
  then show ?case by (auto intro!: exI[of _ "[]"])
next
  case (Cons x xs)
  obtain r1 s1 where b: "body x s = (r1, s1)" by (cases "body x s")
  from Cons.prems(1)[OF _ Cons.prems(2) b] obtain evs1 where
    I1: "I s1" and t1: "trace s1 = trace s @ evs1" and q1: "Q x evs1" by auto
  show ?case
  proof (cases r1)
    case (Inl e)
    with Cons.prems(3) b have "s' = s1" by simp
    with I1 t1 q1 show ?thesis by (auto intro!: exI[of _ "[evs1]"])
  next
    case (Inr u)
    with Cons.prems(3) b have rest: "foreach xs body s1 = (r, s')" by simp
    have "I s' \<and> (\<exists>evss. trace s' = trace s1 @ concat evss \<and> length evss \<le> length xs \<and>
                    list_all2 Q (take (length evss) xs) evss)"
      by (rule Cons.IH[OF _ I1 rest]) (use Cons.prems(1) in auto)
    then obtain evss where "I s'" "trace s' = trace s1 @ concat evss" "length evss \<le> length xs"
      "list_all2 Q (take (length evss) xs) evss" by blast
    with t1 q1 show ?thesis by (auto intro!: exI[of _ "evs1 # evss"])
  qed
qed

lemma list_all2_take_witness:
  assumes "list_all2 Q (take (length evss) xs) evss" "evs \<in> set evss"
  shows "\<exists>x \<in> set xs. Q x evs"
proof -
  from assms(2) obtain i where i: "i < length evss" "evss ! i = evs"
    by (auto simp: in_set_conv_nth)
  with assms(1) have "Q (take (length evss) xs ! i) evs" "i < length (take (length evss) xs)"
    by (auto simp: list_all2_conv_all_nth)
  moreover then have "take (length evss) xs ! i \<in> set xs"
    by (metis in_set_takeD nth_mem)
  ultimately show ?thesis by blast
qed

lemma list_all2_count:
  assumes "list_all2 Q xs evss" "\<And>x evs. Q x evs \<Longrightarrow> length (filter p evs) \<le> (if w x then 1 else 0)"
  shows "length (filter p (concat evss)) \<le> length (filter w xs)"
  using assms(1)
proof (induction rule: list_all2_induct)
  case Nil
  then show ?case by simp
next
  case (Cons x xs evs evss)
  then show ?case using assms(2)[of x evs] by (auto split: if_splits)
qed

lemma cleanup_one_trace:
  assumes "cleanup_one P a b m item s = (r, s')"
  shows "\<exists>evs. trace s' = trace s @ evs \<and> item_events (file_info s) b (map_of m) item evs"
proof -
  obtain j fj where item: "item = (j, fj)" by (cases item)
  let ?R = "appends (move_events j b) :: 'a cloner \<Rightarrow> 'a cloner \<Rightarrow> bool"
  have c: "closed ?R (move_events j b)" by (rule closed_appends)
  have move: "preserves ?R (seq (getitem (mimeType fj) ''mimeType'')
       (\<lambda>mime_type. seq (move_file P j b (Some a) (Some cn) (Some mime_type)) (\<lambda>moved. ret ())))" for cn
    by (intro preserves_seq preserves_getitem preserves_move_file[OF c] preserves_ret
          closed_refl[OF c] closed_trans[OF c]) simp
  show ?thesis
  proof (cases "name fj")
    case None
    with assms item have "s' = s" by (simp add: cleanup_one_def seq_def getitem_def throw_def)
    then show ?thesis by (simp add: item_events_def None item)
  next
    case (Some n)
    show ?thesis
    proof (cases "j \<in> fst ` set (file_info s)")
      case True
      with assms item Some have "s' = s"
        by (simp add: cleanup_one_def seq_def getitem_def ret_def)
      then show ?thesis using True by (auto simp: item_events_def item)
    next
      case stray: False
      show ?thesis
      proof (cases "map_of m (clean n)")
        case None
        with assms item Some stray
        have "seq (getitem (mimeType fj) ''mimeType'')
               (\<lambda>mime_type. seq (move_file P j b (Some a) (Some (clean n)) (Some mime_type))
                  (\<lambda>moved. ret ())) s = (r, s')"
          by (simp add: cleanup_one_def seq_def getitem_def ret_def Let_def)
        then have "?R s s'" by (rule preservesD[OF move])
        then obtain mv where "trace s' = trace s @ mv" "set mv \<subseteq> move_events j b"
          by (auto simp: appends_def)
        then show ?thesis using None Some
          by (intro exI[of _ mv]) (auto simp: item_events_def item)
      next
        case (Some k)
        note k = this
        show ?thesis
        proof (cases "k = j")
          case True
          with assms item \<open>name fj = Some n\<close> stray k have "s' = s"
            by (simp add: cleanup_one_def seq_def getitem_def ret_def Let_def)
          then show ?thesis by (simp add: item_events_def item)
        next
          case False
          with assms item \<open>name fj = Some n\<close> stray k
          have run: "seq (delete_file P k) (\<lambda>deleted. seq (getitem (mimeType fj) ''mimeType'')
               (\<lambda>mime_type. seq (move_file P j b (Some a) (Some (clean n)) (Some mime_type))
                  (\<lambda>moved. ret ()))) s = (r, s')"
            by (simp add: cleanup_one_def seq_def getitem_def ret_def Let_def)
          have shape: "\<exists>mv. trace s' = trace s @ [Request (Delete k)] @ mv \<and>
                         set mv \<subseteq> move_events j b"
            using run
          proof (cases rule: seqE)
            case (raised e)
            then show ?thesis
              by (auto simp: delete_file_def execute_def split: prod.splits)
          next
            case (continued v s1)
            then have t1: "trace s1 = trace s @ [Request (Delete k)]"
              by (auto simp: delete_file_def execute_def split: prod.splits)
            from continued(2) have "?R s1 s'" by (rule preservesD[OF move])
            then show ?thesis using t1 by (auto simp: appends_def)
          qed
          then obtain mv where "trace s' = trace s @ [Request (Delete k)] @ mv"
            "set mv \<subseteq> move_events j b" by blast
          moreover have "item_events (file_info s) b (map_of m) (j, fj) ([Request (Delete k)] @ mv)"
            unfolding item_events_def
            by (rule exI[of _ "[Request (Delete k)]"], rule exI[of _ mv])
               (use False stray k \<open>name fj = Some n\<close> \<open>set mv \<subseteq> move_events j b\<close> in auto)
          ultimately show ?thesis using item by blast
        qed
      qed
    qed
  qed
qed

lemma fresh_listings_trace:
  assumes "fresh_listings P a b s = (r, s')"
  shows "\<exists>lists. trace s' = trace s @ lists \<and> set lists \<subseteq> list_events"
    and "file_info s' = file_info s"
proof -
  have c: "closed (appends list_events :: 'a cloner \<Rightarrow> 'a cloner \<Rightarrow> bool) list_events"
    by (rule closed_appends)
  have lp: "Request (List t q) \<in> list_events" for t q
    by (simp add: list_events_def)
  have "preserves (appends list_events) (fresh_listings P a b)"
    unfolding fresh_listings_def
    by (intro preserves_seq preserves_one_page[OF c lp] closed_trans[OF c])
       (auto simp: preserves_ret closed_refl[OF c] split: prod.splits
          intro!: preserves_seq preserves_one_page[OF c lp] closed_trans[OF c])
  from preservesD[OF this assms]
  show "\<exists>lists. trace s' = trace s @ lists \<and> set lists \<subseteq> list_events"
    by (simp add: appends_def)
  have "preserves same_books (fresh_listings P a b)"
    by (rule preserves_fresh_listings[OF closed_same_books]) simp
  from preservesD[OF this assms] show "file_info s' = file_info s"
    by (simp add: same_books_def)
qed

lemma cleanup_files_pass:
  assumes listings: "fresh_listings P a b (snd (emit (Cleanup a b) s)) = (Inr (cur, dst), s1)"
    and run: "cleanup_files P a b s = (r, s')"
  shows "\<exists>lists evss.
           issued s s' = Cleanup a b # lists @ concat evss \<and> set lists \<subseteq> list_events \<and>
           length evss \<le> length cur \<and>
           list_all2 (item_events (file_info s) b (last_listed dst)) (take (length evss) cur) evss"
proof -
  let ?s0 = "s\<lparr>trace := trace s @ [Cleanup a b]\<rparr>"
  have e: "emit (Cleanup a b) s = (Inr (), ?s0)" by (simp add: emit_def)
  have fl: "fresh_listings P a b ?s0 = (Inr (cur, dst), s1)"
    using listings by (simp add: emit_def)
  from fresh_listings_trace[OF fl] obtain lists where
    t1: "trace s1 = trace s @ [Cleanup a b] @ lists" and l: "set lists \<subseteq> list_events"
    and f1: "file_info s1 = file_info s" by auto
  have loop: "cleanup_loop P a b cur dst s1 = (r, s')"
    using run e fl by (simp add: cleanup_files_def seq_def)
  have "\<exists>evss. trace s' = trace s1 @ concat evss \<and> length evss \<le> length cur \<and>
           list_all2 (item_events (file_info s) b (last_listed dst)) (take (length evss) cur) evss"
  proof (cases "name_to_id dst []")
    case (Inl ex)
    with loop have "s' = s1" by (simp add: cleanup_loop_def throw_def)
    then show ?thesis by (intro exI[of _ "[]"]) simp
  next
    case (Inr m)
    have held: "map_of m = last_listed dst"
      using name_to_id_last_listed[OF Inr] by (rule ext)
    from Inr loop have fe: "foreach cur (cleanup_one P a b m) s1 = (r, s')"
      by (simp add: cleanup_loop_def)
    have step: "file_info t' = file_info s \<and>
                (\<exists>evs. trace t' = trace t @ evs \<and>
                       item_events (file_info s) b (last_listed dst) x evs)"
      if "file_info t = file_info s" "cleanup_one P a b m x t = (r', t')" for x t r' t'
    proof -
      have "preserves same_books (cleanup_one P a b m x)"
        by (rule preserves_cleanup_one[OF closed_same_books]) simp
      from preservesD[OF this that(2)] have "file_info t' = file_info s"
        using that(1) by (simp add: same_books_def)
      then show ?thesis using cleanup_one_trace[OF that(2)] that(1) held by simp
    qed
    from foreach_events[where I = "\<lambda>t. file_info t = file_info s"
        and Q = "item_events (file_info s) b (last_listed dst)", OF _ f1 fe]
    show ?thesis using step by blast
  qed
  then obtain evss where "trace s' = trace s1 @ concat evss" "length evss \<le> length cur"
    "list_all2 (item_events (file_info s) b (last_listed dst)) (take (length evss) cur) evss"
    by blast
  then show ?thesis using t1 l by (auto simp: issued_def)
qed

lemma item_events_update:
  assumes "item_events snapshot b held item evs" "Request (Update i ap rp nm) \<in> set evs"
  shows "fst item = i"
  using assms by (auto simp: item_events_def move_events_def)

lemma item_events_delete:
  assumes "item_events snapshot b held item evs" "Request (Delete k) \<in> set evs"
  shows "fst item \<notin> fst ` set snapshot \<and> k \<noteq> fst item \<and>
         (\<exists>n. name (snd item) = Some n \<and> held (clean n) = Some k)"
  using assms by (auto simp: item_events_def move_events_def)

lemma item_events_count:
  assumes "item_events snapshot b held item evs"
  shows "length (filter is_delete evs) \<le> (if fst item \<notin> fst ` set snapshot then 1 else 0)"
proof -
  from assms obtain dels mv where evs: "evs = dels @ mv" and mv: "set mv \<subseteq> move_events (fst item) b"
    and dels: "dels = [] \<or> (\<exists>k. dels = [Request (Delete k)] \<and> fst item \<notin> fst ` set snapshot)"
    by (auto simp: item_events_def)
  have "filter is_delete mv = []"
    using mv by (auto simp: filter_empty_conv move_events_def)
  then show ?thesis using evs dels by auto
qed

lemma lagging_listings:
  "fresh_listings store_service ''s'' ''d''
     (snd (emit (Cleanup ''s'' ''d'') (new_session lagging_store []))) =
   (Inr ([(''clone'', info_clone), (''stray'', info_stray)], [(''clone'', info_clone)]),
    (new_session lagging_store [])
      \<lparr>trace := [Cleanup ''s'' ''d'', Request (List None (Some (in_parents ''s''))),
                 Request (List None (Some (in_parents ''d'')))]\<rparr>)"
  by (simp add: prog_defs cloner_defs store_defs lagging_store_def info_clone_def info_stray_def)

lemma lagging_pass:
  "issued (new_session lagging_store [])
     (snd (cleanup_files store_service ''s'' ''d'' (new_session lagging_store []))) =
   [Cleanup ''s'' ''d'', Request (List None (Some (in_parents ''s''))),
    Request (List None (Some (in_parents ''d''))),
    Request (Delete ''clone''), Request (Update ''stray'' ''d'' ''s'' ''X'')]"
  by (simp add: issued_def prog_defs cloner_defs store_defs lagging_store_def)

lemma settled_listings:
  "fresh_listings store_service ''s'' ''d''
     (snd (emit (Cleanup ''s'' ''d'') (new_session settled_store []))) =
   (Inr ([(''clone'', info_clone)], [(''clone'', info_clone)]),
    (new_session settled_store [])
      \<lparr>trace := [Cleanup ''s'' ''d'', Request (List None (Some (in_parents ''s''))),
                 Request (List None (Some (in_parents ''d'')))]\<rparr>)"
  by (simp add: prog_defs cloner_defs store_defs settled_store_def info_clone_def)

lemma settled_pass:
  "cleanup_files store_service ''s'' ''d'' (new_session settled_store []) =
   (Inr (),
    (new_session settled_store [])
      \<lparr>trace := [Cleanup ''s'' ''d'', Request (List None (Some (in_parents ''s''))),
                 Request (List None (Some (in_parents ''d'')))]\<rparr>)"
  by (simp add: prog_defs cloner_defs store_defs settled_store_def)

lemma duplicate_listings:
  "fresh_listings store_service ''s'' ''d''
     (snd (emit (Cleanup ''s'' ''d'') (new_session duplicate_store []))) =
   (Inr ([(''stray'', info_stray)], [(''old1'', info_old), (''old2'', info_old)]),
    (new_session duplicate_store [])
      \<lparr>trace := [Cleanup ''s'' ''d'', Request (List None (Some (in_parents ''s''))),
                 Request (List None (Some (in_parents ''d'')))]\<rparr>)"
  by (simp add: prog_defs cloner_defs store_defs duplicate_store_def info_old_def info_stray_def)

lemma duplicate_pass:
  "cleanup_files store_service ''s'' ''d'' (new_session duplicate_store []) =
   (Inr (),
    \<lparr>remote =
       \<lparr>store_files =
          [(''old1'', \<lparr>f_name = ''X'', f_parents = [''d''], f_mimeType = ''text/plain''\<rparr>),
           (''stray'', \<lparr>f_name = ''X'', f_parents = [''d''], f_mimeType = ''text/plain''\<rparr>)],
        next_uuid = 0\<rparr>,
     file_info = [], copied_files = {}, folders_copied = [],
     trace = [Cleanup ''s'' ''d'', Request (List None (Some (in_parents ''s''))),
              Request (List None (Some (in_parents ''d''))),
              Request (Delete ''old2''), Request (Update ''stray'' ''d'' ''s'' ''X'')]\<rparr>)"
  by (simp add: prog_defs cloner_defs store_defs duplicate_store_def)

lemma filter_take_length: "length (filter p (take n xs)) \<le> length (filter p xs)"
proof -
  have "filter p xs = filter p (take n xs) @ filter p (drop n xs)"
    by (metis append_take_drop_id filter_append)
  then show ?thesis by simp
qed

lemma cleanup_one_deletes:
  "length (filter is_delete (issued t (snd (cleanup_one P a b m item t)))) \<le> 1"
proof -
  obtain r t' where run: "cleanup_one P a b m item t = (r, t')"
    by (cases "cleanup_one P a b m item t")
  from cleanup_one_trace[OF run] obtain evs where
    "trace t' = trace t @ evs" "item_events (file_info t) b (map_of m) item evs" by blast
  then show ?thesis using item_events_count[of "file_info t" b "map_of m" item evs] run
    by (auto simp: issued_def split: if_splits)
qed

lemma cleanup_files_delete_held:
  assumes "fresh_listings P a b (snd (emit (Cleanup a b) s)) = (Inr (cur, dst), s1)"
    and "cleanup_files P a b s = (r, s')"
    and "Request (Delete k) \<in> set (issued s s')"
  shows "\<exists>n. last_listed dst n = Some k"
proof -
  from cleanup_files_pass[OF assms(1,2)] obtain lists evss where
    tr: "issued s s' = Cleanup a b # lists @ concat evss"
    and l: "set lists \<subseteq> list_events"
    and ev: "list_all2 (item_events (file_info s) b (last_listed dst))
               (take (length evss) cur) evss" by blast
  from assms(3) tr l obtain evs where evs: "evs \<in> set evss" "Request (Delete k) \<in> set evs"
    by (fastforce simp: list_events_def)
  from list_all2_take_witness[OF ev evs(1)] obtain x where
    "item_events (file_info s) b (last_listed dst) x evs" by blast
  from item_events_delete[OF this evs(2)] show ?thesis by blast
qed

lemma cleanup_files_delete_count:
  assumes "fresh_listings P a b (snd (emit (Cleanup a b) s)) = (Inr (cur, dst), s1)"
    and "cleanup_files P a b s = (r, s')"
  shows "length (filter is_delete (issued s s')) \<le>
           length (filter (\<lambda>(j, fj). j \<notin> fst ` set (file_info s)) cur)"
proof -
  let ?stray = "\<lambda>item. fst item \<notin> fst ` set (file_info s)"
  from cleanup_files_pass[OF assms(1,2)] obtain lists evss where
    tr: "issued s s' = Cleanup a b # lists @ concat evss"
    and l: "set lists \<subseteq> list_events"
    and ev: "list_all2 (item_events (file_info s) b (last_listed dst))
               (take (length evss) cur) evss" by blast
  have "filter is_delete lists = []"
    using l by (auto simp: filter_empty_conv list_events_def)
  then have "length (filter is_delete (issued s s')) = length (filter is_delete (concat evss))"
    using tr by simp
  also have "\<dots> \<le> length (filter ?stray (take (length evss) cur))"
    using ev by (rule list_all2_count) (rule item_events_count)
  also have "\<dots> \<le> length (filter ?stray cur)" by (rule filter_take_length)
  finally show ?thesis by (simp add: case_prod_unfold)
qed

subsection \<open>\<open>_cleanup_files\<close> on the file store\<close>

lemma in_parents_inject: "in_parents p = in_parents q \<longleftrightarrow> p = q"
  by (simp add: in_parents_def)

lemma under_parent: "matches_query (Some (in_parents p)) entry \<longleftrightarrow> p \<in> set (f_parents (snd entry))"
  by (auto simp: matches_query_def in_parents_inject)

lemma update_fresh: "k \<notin> fst ` set al \<Longrightarrow> AList.update k v al = al @ [(k, v)]"
  by (induction al) auto

lemma add_files_store:
  assumes "distinct (map fst acc @ map fst es)" "\<forall>e \<in> set es. f_parents (snd e) \<noteq> []"
  shows "add_files (map to_raw es) acc = Inr (acc @ map as_info es)"
  using assms
proof (induction es arbitrary: acc)
  case Nil
  then show ?case by simp
next
  case (Cons e es)
  have fresh: "fst e \<notin> fst ` set acc" using Cons.prems(1) by auto
  then have none: "map_of acc (fst e) = None" by (simp add: map_of_eq_None_iff)
  obtain p ps where ps: "f_parents (snd e) = p # ps"
    using Cons.prems(2) by (cases "f_parents (snd e)") auto
  have one: "add_file (to_raw e) acc = Inr (acc @ [as_info e])"
    using none fresh ps
    by (simp add: add_file_def to_raw_def as_info_def override_def no_info_def update_fresh)
  have "add_files (map to_raw es) (acc @ [as_info e]) = Inr ((acc @ [as_info e]) @ map as_info es)"
    by (rule Cons.IH) (use Cons.prems in \<open>auto simp: as_info_def\<close>)
  then show ?case using one by simp
qed

lemma store_one_page:
  assumes "distinct (map fst (store_files (remote t)))"
  shows "get_file_info_one_page store_service None (Some (in_parents p)) t =
           (Inr (listed p (remote t), None),
            t\<lparr>trace := trace t @ [Request (List None (Some (in_parents p)))]\<rparr>)"
proof -
  let ?es = "filter (matches_query (Some (in_parents p))) (store_files (remote t))"
  have q: "kwarg (Some (in_parents p)) = Some (in_parents p)"
    by (simp add: kwarg_def truthy_def in_parents_def)
  have none: "kwarg None = None" by (simp add: kwarg_def truthy_def)
  have "distinct (map fst ?es)" using assms by (simp add: distinct_map_filter)
  moreover have "\<forall>e \<in> set ?es. f_parents (snd e) \<noteq> []"
    by (auto simp: under_parent)
  ultimately have "add_files (map to_raw ?es) [] = Inr (map as_info ?es)"
    using add_files_store[of "[]" ?es] by simp
  moreover have "map as_info ?es = listed p (remote t)"
    by (simp add: listed_def under_parent[abs_def])
  ultimately show ?thesis
    by (simp add: get_file_info_one_page_def q none seq_def execute_def
          store_service_def store_list_def getitem_def ret_def)
qed

lemma store_fresh_listings:
  assumes "distinct (map fst (store_files (remote t)))"
  shows "fresh_listings store_service a b t =
           (Inr (listed a (remote t), listed b (remote t)),
            t\<lparr>trace := trace t @ [Request (List None (Some (in_parents a))),
                                  Request (List None (Some (in_parents b)))]\<rparr>)"
  using assms by (simp add: fresh_listings_def seq_def store_one_page ret_def)

lemma store_move:
  assumes "move_file store_service j b (Some a) (Some cn) (Some mt) t = (Inr x, t')"
    and "a \<noteq> []" "cn \<noteq> []" "mt \<noteq> []"
  shows "file_info t' = file_info t \<and>
         (\<exists>f. map_of (store_files (remote t)) j = Some f \<and>
              map_of (store_files (remote t')) = (map_of (store_files (remote t)))(j \<mapsto> moved a b cn f))"
  using assms
  by (auto simp: move_file_def truthy_def send_update_def seq_def execute_def store_service_def
        store_update_def getitem_def ret_def throw_def moved_def update_conv'
      split: option.splits if_splits prod.splits sum.splits)

lemma store_delete:
  assumes "delete_file store_service k t = (Inr x, t')"
  shows "file_info t' = file_info t \<and> map_of (store_files (remote t)) k \<noteq> None \<and>
         map_of (store_files (remote t')) = (map_of (store_files (remote t)))(k := None)"
  using assms
  by (auto simp: delete_file_def execute_def store_service_def store_delete_def delete_conv'
      split: option.splits)

lemma cleanup_one_original:
  assumes "j \<in> fst ` set (file_info t)" "name fj = Some nj"
  shows "cleanup_one P a b m (j, fj) t = (Inr (), t)"
  using assms by (simp add: cleanup_one_def seq_def getitem_def ret_def)

lemma store_step:
  assumes run: "cleanup_one store_service a b m (j, fj) t = (Inr (), t')"
    and item: "name fj = Some nj" "mimeType fj = Some mt" "j \<notin> fst ` set (file_info t)"
    and full: "clean nj \<noteq> []" "mt \<noteq> []" "a \<noteq> []"
  shows "file_info t' = file_info t \<and>
     ((map_of m (clean nj) = Some j \<and>
         map_of (store_files (remote t')) = map_of (store_files (remote t))) \<or>
      (map_of m (clean nj) = None \<and>
         (\<exists>f. map_of (store_files (remote t)) j = Some f \<and>
              map_of (store_files (remote t')) =
                (map_of (store_files (remote t)))(j \<mapsto> moved a b (clean nj) f))) \<or>
      (\<exists>k f. map_of m (clean nj) = Some k \<and> k \<noteq> j \<and>
              map_of (store_files (remote t)) k \<noteq> None \<and>
              map_of (store_files (remote t)) j = Some f \<and>
              map_of (store_files (remote t')) =
                ((map_of (store_files (remote t)))(k := None))(j \<mapsto> moved a b (clean nj) f)))"
proof -
  let ?move = "seq (getitem (mimeType fj) ''mimeType'')
       (\<lambda>mime_type. seq (move_file store_service j b (Some a) (Some (clean nj)) (Some mime_type))
          (\<lambda>moved. ret ()))"
  have mv: "file_info u' = file_info u \<and>
         (\<exists>f. map_of (store_files (remote u)) j = Some f \<and>
              map_of (store_files (remote u')) =
                (map_of (store_files (remote u)))(j \<mapsto> moved a b (clean nj) f))"
    if "?move u = (Inr (), u')" for u u'
  proof -
    from that item(2) obtain x where
      "move_file store_service j b (Some a) (Some (clean nj)) (Some mt) u = (Inr x, u')"
      by (auto simp: getitem_def ret_def elim!: seq_InrE)
    from store_move[OF this full(3) full(1) full(2)] show ?thesis .
  qed
  show ?thesis
  proof (cases "map_of m (clean nj)")
    case None
    with run item have "?move t = (Inr (), t')"
      by (simp add: cleanup_one_def seq_def getitem_def ret_def Let_def)
    from mv[OF this] None show ?thesis by auto
  next
    case (Some k)
    show ?thesis
    proof (cases "k = j")
      case True
      with run item Some have "t' = t"
        by (simp add: cleanup_one_def seq_def getitem_def ret_def Let_def)
      with Some True show ?thesis by simp
    next
      case False
      with run item Some have "seq (delete_file store_service k) (\<lambda>deleted. ?move) t = (Inr (), t')"
        by (simp add: cleanup_one_def seq_def getitem_def ret_def Let_def)
      then obtain x u where d: "delete_file store_service k t = (Inr x, u)"
        and m: "?move u = (Inr (), t')" by (rule seq_InrE)
      from store_delete[OF d] mv[OF m] Some False show ?thesis by auto
    qed
  qed
qed

lemma moved_simps:
  "f_name (moved a b nm f) = nm" "b \<in> set (f_parents (moved a b nm f))"
  "f_parents (moved a b nm f) = remove1 a (f_parents f) @ [b]"
  "f_mimeType (moved a b nm f) = f_mimeType f"
  by (simp_all add: moved_def)

lemma before_step:
  assumes inv: "before_promotion snapshot b X S fS old t"
    and item: "other_item snapshot m S (j, fj)"
    and held: "map_of m X = Some old" and a: "a \<noteq> []"
    and run: "cleanup_one store_service a b m (j, fj) t = (Inr (), t')"
  shows "before_promotion snapshot b X S fS old t'"
proof (cases "j \<in> fst ` set snapshot")
  case True
  from item obtain nj where "name fj = Some nj" by (auto simp: other_item_def)
  with True inv have "cleanup_one store_service a b m (j, fj) t = (Inr (), t)"
    by (intro cleanup_one_original) (auto simp: before_promotion_def)
  with run inv show ?thesis by simp
next
  case False
  from item False obtain nj mt where nm: "name fj = Some nj" "mimeType fj = Some mt"
    and full: "clean nj \<noteq> []" "mt \<noteq> []" and notS: "map_of m (clean nj) \<noteq> Some S" and jS: "j \<noteq> S"
    by (auto simp: other_item_def)
  have stray: "j \<notin> fst ` set (file_info t)" using False inv by (simp add: before_promotion_def)
  from store_step[OF run nm stray full a]
  show ?thesis using inv jS notS held
    unfolding before_promotion_def
    by (elim conjE disjE exE) (auto simp: moved_simps split: if_splits)
qed

lemma after_step:
  assumes inv: "after_promotion snapshot b X S fS' old t"
    and item: "other_item snapshot m S (j, fj)"
    and held: "map_of m X = Some old" and a: "a \<noteq> []"
    and run: "cleanup_one store_service a b m (j, fj) t = (Inr (), t')"
  shows "after_promotion snapshot b X S fS' old t'"
proof (cases "j \<in> fst ` set snapshot")
  case True
  from item obtain nj where "name fj = Some nj" by (auto simp: other_item_def)
  with True inv have "cleanup_one store_service a b m (j, fj) t = (Inr (), t)"
    by (intro cleanup_one_original) (auto simp: after_promotion_def)
  with run inv show ?thesis by simp
next
  case False
  from item False obtain nj mt where nm: "name fj = Some nj" "mimeType fj = Some mt"
    and full: "clean nj \<noteq> []" "mt \<noteq> []" and notS: "map_of m (clean nj) \<noteq> Some S" and jS: "j \<noteq> S"
    by (auto simp: other_item_def)
  have stray: "j \<notin> fst ` set (file_info t)" using False inv by (simp add: after_promotion_def)
  from store_step[OF run nm stray full a]
  show ?thesis using inv jS notS held
    unfolding after_promotion_def
    by (elim conjE disjE exE) (auto simp: moved_simps split: if_splits)
qed

lemma promotion_step:
  assumes inv: "before_promotion snapshot b X S fS old t"
    and item: "name fi = Some (prefix @ X)" "mimeType fi = Some mt" "S \<notin> fst ` set snapshot"
    and full: "X \<noteq> []" "mt \<noteq> []" "a \<noteq> []"
    and held: "map_of m X = Some old" and neq: "old \<noteq> S"
    and run: "cleanup_one store_service a b m (S, fi) t = (Inr (), t')"
  shows "after_promotion snapshot b X S (moved a b X fS) old t'"
proof -
  have cl: "clean (prefix @ X) = X" by (simp add: clean_def startswith_def)
  have stray: "S \<notin> fst ` set (file_info t)" using item(3) inv by (simp add: before_promotion_def)
  from store_step[OF run item(1,2) stray _ full(2,3)] cl full(1)
  show ?thesis using inv held neq
    unfolding before_promotion_def after_promotion_def
    by (elim conjE disjE exE) (auto simp: moved_simps split: if_splits)
qed

lemma foreach_invariant:
  assumes "\<And>x u u'. x \<in> set xs \<Longrightarrow> I u \<Longrightarrow> body x u = (Inr (), u') \<Longrightarrow> I u'"
    and "foreach xs body t = (Inr (), t')" and "I t"
  shows "I t'"
  using assms
proof (induction xs arbitrary: t)
  case Nil
  then show ?case by simp
next
  case (Cons x xs)
  from Cons.prems(2) obtain u where b: "body x t = (Inr (), u)"
    and rest: "foreach xs body u = (Inr (), t')"
    by (auto split: prod.splits sum.splits)
  have "I u" using Cons.prems(1)[OF _ Cons.prems(3) b] by simp
  show ?case by (rule Cons.IH[OF _ rest \<open>I u\<close>]) (use Cons.prems(1) in auto)
qed

lemma foreach_append_returned:
  assumes "foreach (xs @ ys) body t = (Inr (), t')"
  shows "\<exists>u. foreach xs body t = (Inr (), u) \<and> foreach ys body u = (Inr (), t')"
  using assms
  by (induction xs arbitrary: t) (auto split: prod.splits sum.splits)

lemma last_listed_none:
  "last_listed dst n = None \<Longrightarrow> (k, v) \<in> set dst \<Longrightarrow> name v \<noteq> Some n"
  by (induction dst) (auto split: option.splits if_splits)

lemma last_listed_unique:
  assumes "(k, v) \<in> set dst" "name v = Some n"
    and "\<forall>(k', v') \<in> set dst. name v' = Some n \<longrightarrow> k' = k"
  shows "last_listed dst n = Some k"
  using assms
proof (induction dst)
  case Nil
  then show ?case by simp
next
  case (Cons x dst)
  obtain k' v' where x: "x = (k', v')" by (cases x)
  show ?case
  proof (cases "last_listed dst n")
    case None
    have "(k, v) \<notin> set dst" using None last_listed_none Cons.prems(2) by blast
    with Cons.prems x have "k' = k" "name v' = Some n" by auto
    with None x show ?thesis by simp
  next
    case (Some k'')
    then obtain v'' where "(k'', v'') \<in> set dst" "name v'' = Some n"
      using last_listed_in by blast
    with Cons.prems(3) have "k'' = k" by auto
    with Some x show ?thesis by simp
  qed
qed

lemma listed_set:
  "x \<in> set (listed p st) \<longleftrightarrow>
     (\<exists>j f. (j, f) \<in> set (store_files st) \<and> p \<in> set (f_parents f) \<and> x = as_info (j, f))"
  by (fastforce simp: listed_def)

lemma listed_keys: "map fst (listed p st) = map fst (filter (\<lambda>entry. p \<in> set (f_parents (snd entry))) (store_files st))"
  by (simp add: listed_def as_info_def comp_def)

lemma listed_distinct: "distinct (map fst (store_files st)) \<Longrightarrow> distinct (map fst (listed p st))"
  by (simp add: listed_keys distinct_map_filter)

lemma promoted_on_store:
  assumes dict: "distinct (map fst (store_files (remote s)))"
    and stray: "map_of (store_files (remote s)) S = Some fS" "f_name fS = prefix @ X"
      "a \<in> set (f_parents fS)" "S \<notin> fst ` set (file_info s)"
    and old: "map_of (store_files (remote s)) old = Some f_old" "f_name f_old = X"
      "b \<in> set (f_parents f_old)" "old \<noteq> S"
    and only: "\<forall>(k, f) \<in> set (store_files (remote s)).
                 b \<in> set (f_parents f) \<and> f_name f = X \<longrightarrow> k = old"
    and others: "\<forall>(j, fj) \<in> set (store_files (remote s)).
                 a \<in> set (f_parents fj) \<and> j \<notin> fst ` set (file_info s) \<longrightarrow>
                   clean (f_name fj) \<noteq> [] \<and> f_mimeType fj \<noteq> [] \<and>
                   (b \<in> set (f_parents fS) \<longrightarrow> clean (f_name fj) \<noteq> f_name fS)"
    and nonempty: "a \<noteq> []"
    and run: "cleanup_files store_service a b s = (Inr (), s')"
  shows "map_of (store_files (remote s')) old = None \<and>
         map_of (store_files (remote s')) S =
           Some \<lparr>f_name = X, f_parents = remove1 a (f_parents fS) @ [b],
                 f_mimeType = f_mimeType fS\<rparr> \<and>
         (\<forall>k f. map_of (store_files (remote s')) k = Some f \<and> b \<in> set (f_parents f) \<and>
                f_name f = X \<longrightarrow> k = S)"
proof -
  let ?st = "remote s"
  let ?cur = "listed a ?st" and ?dst = "listed b ?st"
  let ?t0 = "s\<lparr>trace := trace s @ [Cleanup a b]\<rparr>"
  let ?t1 = "?t0\<lparr>trace := trace ?t0 @ [Request (List None (Some (in_parents a))),
                                       Request (List None (Some (in_parents b)))]\<rparr>"
  have inS: "(S, fS) \<in> set (store_files ?st)" and inO: "(old, f_old) \<in> set (store_files ?st)"
    using stray(1) old(1) by (auto dest: map_of_SomeD)
  have cl: "clean (prefix @ X) = X" by (simp add: clean_def startswith_def)
  have fl: "fresh_listings store_service a b ?t0 = (Inr (?cur, ?dst), ?t1)"
    using store_fresh_listings[of ?t0 a b] dict by simp
  have loop: "cleanup_loop store_service a b ?cur ?dst ?t1 = (Inr (), s')"
    using run fl by (simp add: cleanup_files_def seq_def emit_def)
  obtain m where m: "name_to_id ?dst [] = Inr m"
  proof (cases "name_to_id ?dst []")
    case (Inl e)
    with loop show thesis by (simp add: cleanup_loop_def throw_def)
  next
    case (Inr m)
    then show thesis by (rule that)
  qed
  have held: "map_of m n = last_listed ?dst n" for n
    using m by (rule name_to_id_last_listed)
  have fe: "foreach ?cur (cleanup_one store_service a b m) ?t1 = (Inr (), s')"
    using loop m by (simp add: cleanup_loop_def)
  have heldX: "map_of m X = Some old"
    unfolding held
  proof (rule last_listed_unique[where v = "snd (as_info (old, f_old))"])
    have "as_info (old, f_old) \<in> set ?dst" using inO old(3) by (auto simp: listed_set)
    then show "(old, snd (as_info (old, f_old))) \<in> set ?dst" by (simp add: as_info_def)
    show "name (snd (as_info (old, f_old))) = Some X" by (simp add: as_info_def old(2))
    show "\<forall>(k', v') \<in> set ?dst. name v' = Some X \<longrightarrow> k' = old"
      using only by (fastforce simp: listed_set as_info_def)
  qed
  have notS: "map_of m (clean (f_name fj)) \<noteq> Some S"
    if "(j, fj) \<in> set (store_files ?st)" "a \<in> set (f_parents fj)"
       "j \<notin> fst ` set (file_info s)" for j fj
  proof
    assume "map_of m (clean (f_name fj)) = Some S"
    then obtain v where v: "(S, v) \<in> set ?dst" "name v = Some (clean (f_name fj))"
      unfolding held using last_listed_in by blast
    then obtain f' where f': "(S, f') \<in> set (store_files ?st)" "b \<in> set (f_parents f')"
      "name v = Some (f_name f')" by (auto simp: listed_set as_info_def)
    have "f' = fS" using f'(1) inS dict by (metis eq_key_imp_eq_value)
    with f' v(2) others that show False by auto
  qed
  have item: "other_item (file_info s) m S x" if "x \<in> set ?cur" "fst x \<noteq> S" for x
  proof -
    from that(1) obtain j fj where j: "(j, fj) \<in> set (store_files ?st)" "a \<in> set (f_parents fj)"
      "x = as_info (j, fj)" by (auto simp: listed_set)
    show ?thesis
      using that(2) j others notS[OF j(1,2)]
      by (auto simp: other_item_def as_info_def)
  qed
  have "as_info (S, fS) \<in> set ?cur" using inS stray(3) by (auto simp: listed_set)
  then obtain pre post where split: "?cur = pre @ as_info (S, fS) # post"
    by (auto dest: split_list)
  have "distinct (map fst ?cur)" using dict by (rule listed_distinct)
  then have apart: "S \<notin> fst ` set pre" "S \<notin> fst ` set post"
    unfolding split by (auto simp: as_info_def)
  from foreach_append_returned[OF fe[unfolded split]] obtain u1 where
    p1: "foreach pre (cleanup_one store_service a b m) ?t1 = (Inr (), u1)" and
    p23: "foreach (as_info (S, fS) # post) (cleanup_one store_service a b m) u1 = (Inr (), s')"
    by (elim exE conjE)
  from p23 obtain u2 where
    p2: "cleanup_one store_service a b m (S, snd (as_info (S, fS))) u1 = (Inr (), u2)" and
    p3: "foreach post (cleanup_one store_service a b m) u2 = (Inr (), s')"
    by (auto simp: as_info_def split: prod.splits sum.splits)
  have start: "before_promotion (file_info s) b X S fS old ?t1"
    using stray(1) only by (auto simp: before_promotion_def dest: map_of_SomeD)
  have b1: "before_promotion (file_info s) b X S fS old u1"
  proof (rule foreach_invariant[where I = "before_promotion (file_info s) b X S fS old",
        OF _ p1 start])
    fix x u u'
    assume x: "x \<in> set pre" and inv: "before_promotion (file_info s) b X S fS old u"
      and r: "cleanup_one store_service a b m x u = (Inr (), u')"
    have "other_item (file_info s) m S x"
      using x apart(1) by (intro item) (auto simp: split)
    then show "before_promotion (file_info s) b X S fS old u'"
      using before_step[OF inv _ heldX nonempty, of "fst x" "snd x" u'] r by simp
  qed
  have strayS: "X \<noteq> []" "f_mimeType fS \<noteq> []"
    using others inS stray(2,3,4) cl by auto
  have a2: "after_promotion (file_info s) b X S (moved a b X fS) old u2"
    by (rule promotion_step[OF b1 _ _ stray(4) strayS(1) strayS(2) nonempty heldX old(4) p2])
       (simp_all add: as_info_def stray(2))
  have a3: "after_promotion (file_info s) b X S (moved a b X fS) old s'"
  proof (rule foreach_invariant[where I = "after_promotion (file_info s) b X S (moved a b X fS) old",
        OF _ p3 a2])
    fix x u u'
    assume x: "x \<in> set post"
      and inv: "after_promotion (file_info s) b X S (moved a b X fS) old u"
      and r: "cleanup_one store_service a b m x u = (Inr (), u')"
    have "other_item (file_info s) m S x"
      using x apart(2) by (intro item) (auto simp: split)
    then show "after_promotion (file_info s) b X S (moved a b X fS) old u'"
      using after_step[OF inv _ heldX nonempty, of "fst x" "snd x" u'] r by simp
  qed
  have "moved a b X fS =
          \<lparr>f_name = X, f_parents = remove1 a (f_parents fS) @ [b], f_mimeType = f_mimeType fS\<rparr>"
    by (cases fS) (simp add: moved_def)
  with a3 show ?thesis by (simp add: after_promotion_def)
qed

lemma copy_of_copy_listings:
  "fst (fresh_listings store_service ''s'' ''d''
          (snd (emit (Cleanup ''s'' ''d'') (new_session copy_of_copy_store [])))) =
   Inr ([(''stray'', info_stray),
         (''second'', \<lparr>kind = None, name = Some ''Copy of Copy of X'',
                        mimeType = Some ''text/plain'', parent = Some ''s''\<rparr>)],
        [(''old'', info_old), (''stray'', info_stray)])"
  by (simp add: prog_defs cloner_defs store_defs copy_of_copy_store_def info_stray_def
        info_old_def)

lemma copy_of_copy_pass:
  "cleanup_files store_service ''s'' ''d'' (new_session copy_of_copy_store []) =
   (Inr (),
    \<lparr>remote =
       \<lparr>store_files =
          [(''second'', \<lparr>f_name = ''Copy of X'', f_parents = [''d''],
                         f_mimeType = ''text/plain''\<rparr>)],
        next_uuid = 0\<rparr>,
     file_info = [], copied_files = {}, folders_copied = [],
     trace = [Cleanup ''s'' ''d'', Request (List None (Some (in_parents ''s''))),
              Request (List None (Some (in_parents ''d''))),
              Request (Delete ''old''), Request (Update ''stray'' ''d'' ''s'' ''X''),
              Request (Delete ''stray''),
              Request (Update ''second'' ''d'' ''s'' ''Copy of X'')]\<rparr>)"
  by (simp add: prog_defs cloner_defs store_defs copy_of_copy_store_def)

subsection \<open>The file store with a paged List\<close>

lemma paged_complete:
  assumes "length (listed p st) \<le> page_size"
  shows "paged_list page_size None (Some (in_parents p)) st =
           store_list None (Some (in_parents p)) st"
proof -
  have "length (filter (matches_query (Some (in_parents p))) (store_files st)) \<le> page_size"
    using assms by (simp add: listed_def under_parent[abs_def])
  then show ?thesis by (simp add: paged_list_def store_list_def)
qed

lemma paged_one_page:
  assumes "length (listed p (remote t)) \<le> page_size"
  shows "get_file_info_one_page (paged_service page_size) None (Some (in_parents p)) t =
           get_file_info_one_page store_service None (Some (in_parents p)) t"
proof -
  have q: "kwarg (Some (in_parents p)) = Some (in_parents p)"
    by (simp add: kwarg_def truthy_def in_parents_def)
  have none: "kwarg None = None" by (simp add: kwarg_def truthy_def)
  show ?thesis
    by (simp add: get_file_info_one_page_def q none seq_def execute_def paged_service_def
          store_service_def paged_complete[OF assms])
qed

lemma one_page_remote:
  "get_file_info_one_page store_service tok q t = (r, t') \<Longrightarrow> remote t' = remote t"
  by (auto simp: get_file_info_one_page_def seq_def execute_def store_service_def store_list_def
        getitem_def ret_def throw_def split: sum.splits prod.splits)

lemma paged_fresh_listings:
  assumes "length (listed a (remote t)) \<le> page_size" "length (listed b (remote t)) \<le> page_size"
  shows "fresh_listings (paged_service page_size) a b t = fresh_listings store_service a b t"
proof -
  obtain r t1 where one: "get_file_info_one_page store_service None (Some (in_parents a)) t = (r, t1)"
    by (cases "get_file_info_one_page store_service None (Some (in_parents a)) t")
  have "remote t1 = remote t" using one by (rule one_page_remote)
  then have two: "get_file_info_one_page (paged_service page_size) None (Some (in_parents b)) t1 =
                  get_file_info_one_page store_service None (Some (in_parents b)) t1"
    using assms(2) by (intro paged_one_page) simp
  show ?thesis
    using one two
    by (simp add: fresh_listings_def seq_def paged_one_page[OF assms(1)] split: sum.splits)
qed

lemma paged_move_file:
  "move_file (paged_service page_size) j b cp nm mt = move_file store_service j b cp nm mt"
  by (simp add: move_file_def get_one_file_info_def send_update_def paged_service_def
        store_service_def)

lemma paged_delete_file:
  "delete_file (paged_service page_size) k = delete_file store_service k"
  by (simp add: delete_file_def paged_service_def store_service_def)

lemma paged_cleanup_body:
  "cleanup_one (paged_service page_size) a b m = cleanup_one store_service a b m"
  unfolding cleanup_one_def paged_move_file paged_delete_file by (rule refl)

lemma paged_cleanup_loop:
  "cleanup_loop (paged_service page_size) a b cur dst = cleanup_loop store_service a b cur dst"
  by (simp add: cleanup_loop_def paged_cleanup_body split: sum.splits)

lemma paged_cleanup_files:
  assumes "length (listed a (remote s)) \<le> page_size" "length (listed b (remote s)) \<le> page_size"
  shows "cleanup_files (paged_service page_size) a b s = cleanup_files store_service a b s"
proof -
  let ?t = "s\<lparr>trace := trace s @ [Cleanup a b]\<rparr>"
  have "fresh_listings (paged_service page_size) a b ?t = fresh_listings store_service a b ?t"
    using assms by (intro paged_fresh_listings) simp_all
  then show ?thesis
    by (simp add: cleanup_files_def seq_def emit_def paged_cleanup_loop)
qed

lemma promotion_pass_paged:
  "cleanup_files (paged_service 2) ''s'' ''d'' (new_session promotion_store promotion_snapshot) =
   (Inr (),
    \<lparr>remote =
       \<lparr>store_files =
          [(''orig'', \<lparr>f_name = ''X'', f_parents = [''s''], f_mimeType = ''text/plain''\<rparr>),
           (''stray'', \<lparr>f_name = ''X'', f_parents = [''d''], f_mimeType = ''text/plain''\<rparr>)],
        next_uuid = 0\<rparr>,
     file_info = promotion_snapshot, copied_files = {}, folders_copied = [],
     trace = [Cleanup ''s'' ''d'', Request (List None (Some (in_parents ''s''))),
              Request (List None (Some (in_parents ''d''))),
              Request (Delete ''old''), Request (Update ''stray'' ''d'' ''s'' ''X'')]\<rparr>)"
  by (simp add: prog_defs cloner_defs store_defs paged_service_def paged_list_def
        promotion_store_def promotion_snapshot_def)

section \<open>The claims\<close>

text \<open>
  C8. Across every operation of a session, after construction, the snapshot \<open>file_info\<close> is
  never mutated, \<open>copied_files\<close> only grows, and every source id appended to
  \<open>folders_copied\<close> is, at the moment of insertion, present in the snapshot with the folder
  mime-type: \<open>session_inv\<close> holds between the state before and the state after \<open>run\<close>,
  \<open>copy_item\<close>, \<open>copy_file\<close>, \<open>move_file\<close>, \<open>create_folder\<close>, \<open>_cleanup_files\<close> and
  \<open>run_cleanup\<close>, whether they return or raise.
\<close>

theorem bookkeeping_invariants:
  "session_inv s (snd (run P depth base dest new_name s)) \<and>
   session_inv s (snd (copy_item P depth item dest new_name s)) \<and>
   session_inv s (snd (copy_file P item dest s)) \<and>
   session_inv s (snd (move_file P item dest current_parent nm mime s)) \<and>
   session_inv s (snd (create_folder P dest folder_name s)) \<and>
   session_inv s (snd (cleanup_files P parent_id dest s)) \<and>
   session_inv s (snd (run_cleanup P s))"
  by (simp add: preserves_snd[OF inv_run] preserves_snd[OF inv_copy_item]
        preserves_snd[OF inv_copy_file] preserves_snd[OF inv_move_file]
        preserves_snd[OF inv_create_folder] preserves_snd[OF inv_cleanup_files]
        preserves_snd[OF inv_run_cleanup])

theorem bookkeeping_invariants_witness:
  "session_inv (new_session empty_folder_store empty_folder_snapshot)
     (snd (run store_service 0 ''R'' ''D'' None
             (new_session empty_folder_store empty_folder_snapshot))) \<and>
   folders_copied (snd (run store_service 0 ''R'' ''D'' None
             (new_session empty_folder_store empty_folder_snapshot))) = [(''R'', ''uuid'')] \<and>
   is_folder (file_info (new_session empty_folder_store empty_folder_snapshot)) ''R''"
proof -
  let ?s = "new_session empty_folder_store empty_folder_snapshot"
  have "session_inv ?s (snd (run store_service 0 ''R'' ''D'' None ?s))"
    by (rule bookkeeping_invariants
          [where s = ?s and P = store_service and depth = 0 and base = "''R''"
             and dest = "''D''" and new_name = None, THEN conjunct1])
  moreover have "folders_copied (snd (run store_service 0 ''R'' ''D'' None ?s)) = [(''R'', ''uuid'')]"
    by (simp add: run_empty_folder)
  moreover have "is_folder (file_info ?s) ''R''"
    by (simp add: is_folder_def new_session_def empty_folder_snapshot_def)
  ultimately show ?thesis by simp
qed

text \<open>
  C2. For every id \<open>x\<close>, if a first call \<open>copy_item(x, d)\<close> in a session returns a concrete id,
  then a second call \<open>copy_item(x, d')\<close> in the same session (in the state the first call left,
  or in any later state of the session) returns \<open>None\<close> and leaves the provider untouched:
  all it adds to the trace is its pacing sleep. The statement does not look at the mime-type
  of \<open>x\<close>: it holds for a folder and for a leaf.
\<close>

theorem copy_item_twice:
  assumes "copy_item P depth x d new_name s = (Inr (Some new_id), s1)"
    and "session_inv s1 s2"
  shows "copy_item P depth' x d' new_name' s2 =
           (Inr None, s2\<lparr>trace := trace s2 @ [Sleep COPY_SLEEP]\<rparr>)"
proof -
  from assms(1) obtain fi n m where
    "x \<in> copied_files s1" "map_of (file_info s) x = Some fi" "name fi = Some n"
    "mimeType fi = Some m"
    using copy_item_returned by blast
  moreover have "file_info s1 = file_info s"
    using assms(1) preservesD[OF inv_copy_item] by (fastforce simp: session_inv_def)
  ultimately have "x \<in> copied_files s2" "map_of (file_info s2) x = Some fi"
    using assms(2) by (auto simp: session_inv_def)
  then show ?thesis using \<open>name fi = Some n\<close> \<open>mimeType fi = Some m\<close>
    by (rule copy_item_copied)
qed

theorem copy_item_twice_witness:
  "copy_item store_service 0 ''R'' ''D'' None
       (new_session empty_folder_store empty_folder_snapshot)
     = (Inr (Some ''uuid''), after_empty_folder) \<and>
   copy_item store_service 0 ''R'' ''E'' None after_empty_folder
     = (Inr None, after_empty_folder\<lparr>trace := trace after_empty_folder @ [Sleep COPY_SLEEP]\<rparr>) \<and>
   copy_item store_service 0 ''F'' ''D'' None
       (new_session single_file_store single_file_snapshot)
     = (Inr (Some ''uuid''), after_single_file) \<and>
   copy_item store_service 0 ''F'' ''E'' None after_single_file
     = (Inr None, after_single_file\<lparr>trace := trace after_single_file @ [Sleep COPY_SLEEP]\<rparr>)"
  by (intro conjI copy_item_empty_folder copy_item_single_file
        copy_item_twice[OF copy_item_empty_folder session_inv_refl]
        copy_item_twice[OF copy_item_single_file session_inv_refl])

text \<open>
  C6, as the code has it. \<open>copy_item\<close> resolves the id in the snapshot, and reads the name
  and the mime-type of the entry, before it looks into \<open>copied_files\<close>. For an id in
  \<open>copied_files\<close> that the snapshot resolves to an entry with a name and a mime-type the call
  returns \<open>None\<close> and sends no request; for an id absent from the snapshot the call raises
  \<open>KeyError\<close>, in \<open>copied_files\<close> or not.
\<close>

theorem copy_item_already_copied:
  "(x \<in> copied_files s \<and> map_of (file_info s) x = Some fi \<and> name fi = Some n \<and>
      mimeType fi = Some m
      \<longrightarrow> copy_item P depth x d new_name s =
            (Inr None, s\<lparr>trace := trace s @ [Sleep COPY_SLEEP]\<rparr>)) \<and>
   (map_of (file_info s) x = None
      \<longrightarrow> copy_item P depth x d new_name s =
            (Inl (KeyError x), s\<lparr>trace := trace s @ [Sleep COPY_SLEEP]\<rparr>))"
  using copy_item_copied copy_item_absent by blast

theorem copy_item_already_copied_witness:
  "''R'' \<in> copied_files after_empty_folder \<and>
   map_of (file_info after_empty_folder) ''R'' =
     Some \<lparr>kind = None, name = Some ''reports'', mimeType = Some FOLDER_TYPE,
           parent = Some ''top''\<rparr> \<and>
   copy_item store_service 0 ''R'' ''D'' None after_empty_folder =
     (Inr None, after_empty_folder\<lparr>trace := trace after_empty_folder @ [Sleep COPY_SLEEP]\<rparr>) \<and>
   map_of (file_info after_empty_folder) ''Q'' = None \<and>
   copy_item store_service 0 ''Q'' ''D'' None after_empty_folder =
     (Inl (KeyError ''Q''),
      after_empty_folder\<lparr>trace := trace after_empty_folder @ [Sleep COPY_SLEEP]\<rparr>)"
proof -
  have a: "''R'' \<in> copied_files after_empty_folder"
    by (simp add: after_empty_folder_def)
  have b: "map_of (file_info after_empty_folder) ''R'' =
     Some \<lparr>kind = None, name = Some ''reports'', mimeType = Some FOLDER_TYPE,
           parent = Some ''top''\<rparr>"
    by (simp add: after_empty_folder_def empty_folder_snapshot_def)
  have c: "map_of (file_info after_empty_folder) ''Q'' = None"
    by (simp add: after_empty_folder_def empty_folder_snapshot_def)
  have d: "copy_item store_service 0 ''R'' ''D'' None after_empty_folder =
     (Inr None, after_empty_folder\<lparr>trace := trace after_empty_folder @ [Sleep COPY_SLEEP]\<rparr>)"
    by (rule copy_item_already_copied
          [where fi = "\<lparr>kind = None, name = Some ''reports'', mimeType = Some FOLDER_TYPE,
                        parent = Some ''top''\<rparr>"
             and n = "''reports''" and m = FOLDER_TYPE, THEN conjunct1, THEN mp])
       (simp add: a b)
  have e: "copy_item store_service 0 ''Q'' ''D'' None after_empty_folder =
     (Inl (KeyError ''Q''),
      after_empty_folder\<lparr>trace := trace after_empty_folder @ [Sleep COPY_SLEEP]\<rparr>)"
    by (rule copy_item_already_copied[THEN conjunct2, THEN mp]) (rule c)
  show ?thesis by (intro conjI a b c d e)
qed

text \<open>
  C6 as stated fails: an id that is in \<open>copied_files\<close> and absent from the snapshot does not
  get the no-op return, the lookup raises first.
\<close>

theorem copy_item_membership_first_counterexample:
  "''gone'' \<in> copied_files ((new_session empty_folder_store []) \<lparr>copied_files := {''gone''}\<rparr>) \<and>
   fst (copy_item store_service 0 ''gone'' ''D'' None
          ((new_session empty_folder_store []) \<lparr>copied_files := {''gone''}\<rparr>))
     = Inl (KeyError ''gone'')"
  by (simp add: prog_defs cloner_defs)




text \<open>
  C9 at the failing input. With all three of current parent, name and mime-type supplied and
  the name the empty string, \<open>move_file\<close> sends a Get first, whatever the provider; on the
  file store the Update then carries the parent and the name the Get returned (\<open>P1\<close>,
  \<open>draft\<close>), not the ones supplied (\<open>P2\<close> and the empty name).
\<close>

theorem move_file_empty_name_fetches:
  "(\<exists>evs. trace (snd (move_file P file_id dest (Some current_parent) (Some []) (Some mime) s)) =
      trace s @ Request (Get file_id ''id,mimeType,name,parents'') # evs) \<and>
   trace (snd (move_file store_service ''X'' ''D'' (Some ''P2'') (Some []) (Some ''text/plain'')
                 (new_session two_parent_store []))) =
     [Request (Get ''X'' ''id,mimeType,name,parents''),
      Request (Update ''X'' ''D'' ''P1'' ''draft'')]"
proof
  let ?R = "appends UNIV :: 'a cloner \<Rightarrow> 'a cloner \<Rightarrow> bool"
  show "\<exists>evs. trace (snd (move_file P file_id dest (Some current_parent) (Some []) (Some mime) s)) =
      trace s @ Request (Get file_id ''id,mimeType,name,parents'') # evs"
  proof -
    obtain r s' where run: "move_file P file_id dest (Some current_parent) (Some []) (Some mime) s = (r, s')"
      by (cases "move_file P file_id dest (Some current_parent) (Some []) (Some mime) s")
    obtain r1 s1 where g: "get_one_file_info P file_id None s = (r1, s1)"
      by (cases "get_one_file_info P file_id None s")
    then have t1: "trace s1 = trace s @ [Request (Get file_id ''id,mimeType,name,parents'')]"
      by (auto simp: get_one_file_info_def execute_def split: prod.splits)
    have "\<exists>evs. trace s' = trace s1 @ evs"
    proof (cases r1)
      case (Inl e)
      with run g show ?thesis by (simp add: move_file_def truthy_def seq_def)
    next
      case (Inr fi)
      have c: "closed ?R UNIV" by (rule closed_appends)
      have rest: "preserves ?R (seq (getitem (r_parents fi) ''parents'')
             (\<lambda>parents. seq (case parents of [] \<Rightarrow> throw IndexError | p # ps \<Rightarrow> ret p)
                (\<lambda>current_parent_id'. seq (getitem (r_name fi) ''name'')
                   (\<lambda>nm'. seq (getitem (r_mimeType fi) ''mimeType'')
                      (\<lambda>mime_type'. send_update P file_id dest current_parent_id' nm')))))"
        by (intro preserves_seq preserves_getitem preserves_send_update[OF c]
              closed_refl[OF c] closed_trans[OF c])
           (auto simp: preserves_throw preserves_ret closed_refl[OF c] split: list.splits)
      from Inr run g have "seq (getitem (r_parents fi) ''parents'')
             (\<lambda>parents. seq (case parents of [] \<Rightarrow> throw IndexError | p # ps \<Rightarrow> ret p)
                (\<lambda>current_parent_id'. seq (getitem (r_name fi) ''name'')
                   (\<lambda>nm'. seq (getitem (r_mimeType fi) ''mimeType'')
                      (\<lambda>mime_type'. send_update P file_id dest current_parent_id' nm')))) s1
            = (r, s')"
        by (simp add: move_file_def truthy_def seq_def)
      then have "?R s1 s'" by (rule preservesD[OF rest])
      then show ?thesis by (auto simp: appends_def)
    qed
    with t1 run show ?thesis by auto
  qed
next
  show "trace (snd (move_file store_service ''X'' ''D'' (Some ''P2'') (Some []) (Some ''text/plain'')
                 (new_session two_parent_store []))) =
     [Request (Get ''X'' ''id,mimeType,name,parents''),
      Request (Update ''X'' ''D'' ''P1'' ''draft'')]"
    by (simp add: prog_defs cloner_defs store_defs two_parent_store_def)
qed

text \<open>
  C5 at the failing input. On the two-page provider \<open>_get_all_file_info\<close> follows the token
  and returns both files, while the listings of \<open>_cleanup_files\<close> hold the first page only:
  the whole pass sends two List requests, none with a page token, and the copy \<open>B\<close> on the
  second page is neither seen nor moved.
\<close>

theorem cleanup_lists_first_page_only:
  "get_all_file_info two_page_service (new_session () []) =
     Some (Inr [(''A'', info_A), (''B'', info_B)],
           (new_session () [])
             \<lparr>trace := [Request (List None None), Request (List (Some ''page2'') None)]\<rparr>) \<and>
   fst (fresh_listings two_page_service ''s'' ''d'' (new_session () [(''A'', info_A)])) =
     Inr ([(''A'', info_A)], [(''A'', info_A)]) \<and>
   cleanup_files two_page_service ''s'' ''d'' (new_session () [(''A'', info_A)]) =
     (Inr (),
      (new_session () [(''A'', info_A)])
        \<lparr>trace := [Cleanup ''s'' ''d'',
                   Request (List None (Some (in_parents ''s''))),
                   Request (List None (Some (in_parents ''d'')))]\<rparr>)"
  by (simp add: get_all_file_info_def all_pages.simps merge_page_def prog_defs cloner_defs
        two_page_service_def page_one_def page_two_def info_A_def info_B_def)

text \<open>
  C7, as the code has it. Let the two listings that \<open>_cleanup_files(s, d)\<close> takes on entry be
  \<open>cur\<close> and \<open>dst\<close>, and let \<open>i\<close> be a stray of \<open>cur\<close> (an id absent from the snapshot) whose
  clean name the destination dictionary maps to \<open>i\<close> itself. Then the pass sends no Update
  for \<open>i\<close>. It sends no Delete for \<open>i\<close> either, provided no other stray of \<open>cur\<close> has a clean
  name that the dictionary maps to \<open>i\<close>: the skip covers the stray's own round of the loop
  only.
\<close>

theorem already_moved_not_touched:
  assumes "fresh_listings P s_parent d_parent (snd (emit (Cleanup s_parent d_parent) s))
             = (Inr (cur, dst), s1)"
    and "(i, fi) \<in> set cur" and "i \<notin> fst ` set (file_info s)"
    and "name fi = Some n" and "last_listed dst (clean n) = Some i"
    and "cleanup_files P s_parent d_parent s = (r, s')"
  shows "(\<forall>ap rp nm. Request (Update i ap rp nm) \<notin> set (issued s s')) \<and>
         ((\<forall>(j, fj) \<in> set cur. j \<noteq> i \<longrightarrow> j \<notin> fst ` set (file_info s) \<longrightarrow>
              (\<forall>nj. name fj = Some nj \<longrightarrow> last_listed dst (clean nj) \<noteq> Some i))
          \<longrightarrow> Request (Delete i) \<notin> set (issued s s'))"
proof -
  from cleanup_files_pass[OF assms(1,6)] obtain lists evss where
    tr: "issued s s' = Cleanup s_parent d_parent # lists @ concat evss"
    and l: "set lists \<subseteq> list_events"
    and ev: "list_all2 (item_events (file_info s) d_parent (last_listed dst))
               (take (length evss) cur) evss" by blast
  have dist: "distinct (map fst cur)" using fresh_listings_distinct(1)[OF assms(1)] .
  have located: "\<exists>evs \<in> set evss. e \<in> set evs"
    if "e \<in> set (issued s s')" "e \<notin> list_events" "e \<noteq> Cleanup s_parent d_parent" for e
    using that tr l by auto
  have no_update: "Request (Update i ap rp nm) \<notin> set (issued s s')" for ap rp nm
  proof
    assume "Request (Update i ap rp nm) \<in> set (issued s s')"
    then obtain evs where evs: "evs \<in> set evss" "Request (Update i ap rp nm) \<in> set evs"
      using located by (fastforce simp: list_events_def)
    from list_all2_take_witness[OF ev evs(1)] obtain x where
      x: "x \<in> set cur" "item_events (file_info s) d_parent (last_listed dst) x evs" by blast
    have "fst x = i" using item_events_update[OF x(2) evs(2)] .
    then have "x = (i, fi)" using x(1) assms(2) dist
      by (metis eq_key_imp_eq_value prod.collapse)
    then have "evs = []" using x(2) assms(4,5) by (auto simp: item_events_def)
    with evs(2) show False by simp
  qed
  have no_delete: "Request (Delete i) \<notin> set (issued s s')"
    if others: "\<forall>(j, fj) \<in> set cur. j \<noteq> i \<longrightarrow> j \<notin> fst ` set (file_info s) \<longrightarrow>
              (\<forall>nj. name fj = Some nj \<longrightarrow> last_listed dst (clean nj) \<noteq> Some i)"
  proof
    assume "Request (Delete i) \<in> set (issued s s')"
    then obtain evs where evs: "evs \<in> set evss" "Request (Delete i) \<in> set evs"
      using located by (fastforce simp: list_events_def)
    from list_all2_take_witness[OF ev evs(1)] obtain x where
      x: "x \<in> set cur" "item_events (file_info s) d_parent (last_listed dst) x evs" by blast
    from item_events_delete[OF x(2) evs(2)] obtain nj where
      "fst x \<notin> fst ` set (file_info s)" "i \<noteq> fst x" "name (snd x) = Some nj"
      "last_listed dst (clean nj) = Some i" by blast
    with others x(1) show False by (cases x) auto
  qed
  show ?thesis using no_update no_delete by blast
qed

theorem already_moved_not_touched_witness:
  "fresh_listings store_service ''s'' ''d''
     (snd (emit (Cleanup ''s'' ''d'') (new_session settled_store []))) =
   (Inr ([(''clone'', info_clone)], [(''clone'', info_clone)]),
    (new_session settled_store [])
      \<lparr>trace := [Cleanup ''s'' ''d'', Request (List None (Some (in_parents ''s''))),
                 Request (List None (Some (in_parents ''d'')))]\<rparr>) \<and>
   last_listed [(''clone'', info_clone)] (clean ''X'') = Some ''clone'' \<and>
   Request (Update ''clone'' ''d'' ''s'' ''X'') \<notin>
     set (issued (new_session settled_store [])
            (snd (cleanup_files store_service ''s'' ''d'' (new_session settled_store [])))) \<and>
   Request (Delete ''clone'') \<notin>
     set (issued (new_session settled_store [])
            (snd (cleanup_files store_service ''s'' ''d'' (new_session settled_store []))))"
proof -
  have ll: "last_listed [(''clone'', info_clone)] (clean ''X'') = Some ''clone''"
    by (simp add: info_clone_def clean_def startswith_def prefix_def)
  have mem: "(''clone'', info_clone) \<in> set [(''clone'', info_clone)]" by simp
  have fresh: "''clone'' \<notin> fst ` set (file_info (new_session settled_store []))"
    by (simp add: new_session_def)
  have nm: "name info_clone = Some ''X''" by (simp add: info_clone_def)
  have others: "\<forall>(j, fj) \<in> set [(''clone'', info_clone)]. j \<noteq> ''clone'' \<longrightarrow>
      j \<notin> fst ` set (file_info (new_session settled_store [])) \<longrightarrow>
      (\<forall>nj. name fj = Some nj \<longrightarrow>
         last_listed [(''clone'', info_clone)] (clean nj) \<noteq> Some ''clone'')"
    by simp
  note main = already_moved_not_touched[OF settled_listings mem fresh nm ll settled_pass]
  have u: "Request (Update ''clone'' ''d'' ''s'' ''X'') \<notin>
     set (issued (new_session settled_store [])
            (snd (cleanup_files store_service ''s'' ''d'' (new_session settled_store []))))"
    unfolding settled_pass snd_conv using main[THEN conjunct1] by (elim allE)
  have d: "Request (Delete ''clone'') \<notin>
     set (issued (new_session settled_store [])
            (snd (cleanup_files store_service ''s'' ''d'' (new_session settled_store []))))"
    unfolding settled_pass snd_conv using main[THEN conjunct2] others by (rule mp)
  show ?thesis by (intro conjI settled_listings ll u d)
qed

text \<open>
  C7 as stated fails: the clone's clean name maps to the clone itself, its own round is
  skipped, and the round of the provider-made copy of the same name deletes it in the same
  pass.
\<close>

theorem already_moved_deleted_counterexample:
  "fst (fresh_listings store_service ''s'' ''d''
          (snd (emit (Cleanup ''s'' ''d'') (new_session lagging_store [])))) =
     Inr ([(''clone'', info_clone), (''stray'', info_stray)], [(''clone'', info_clone)]) \<and>
   name info_clone = Some ''X'' \<and>
   last_listed [(''clone'', info_clone)] (clean ''X'') = Some ''clone'' \<and>
   Request (Delete ''clone'') \<in>
     set (issued (new_session lagging_store [])
            (snd (cleanup_files store_service ''s'' ''d'' (new_session lagging_store []))))"
proof (intro conjI)
  show "Request (Delete ''clone'') \<in>
     set (issued (new_session lagging_store [])
            (snd (cleanup_files store_service ''s'' ''d'' (new_session lagging_store []))))"
    unfolding lagging_pass by simp
qed (simp_all add: lagging_listings info_clone_def clean_def startswith_def prefix_def)

text \<open>
  C10. The name-to-id dictionary of \<open>_cleanup_files\<close> keeps, for every name, the id listed
  last under it. One round of the loop sends at most one Delete, so the pass sends at most
  as many as the listing of \<open>s\<close> has strays. Every Delete of the pass is for an id that the
  destination listing holds last under some name; an entry of the destination listing that
  is followed by another of the same name is never deleted. So the destination can end the
  pass with several entries of one name: on the store with the entries \<open>old1\<close> and \<open>old2\<close>
  named \<open>X\<close> under \<open>d\<close> and a copy of \<open>X\<close> under \<open>s\<close>, the pass deletes \<open>old2\<close> and leaves
  \<open>old1\<close> and the renamed copy, both named \<open>X\<close>, under \<open>d\<close>.
\<close>

theorem cleanup_deletes_last_listed_only:
  assumes "fresh_listings P s_parent d_parent (snd (emit (Cleanup s_parent d_parent) s))
             = (Inr (cur, dst), s1)"
    and "cleanup_files P s_parent d_parent s = (r, s')"
  shows "(\<forall>m n. name_to_id dst [] = Inr m \<longrightarrow> map_of m n = last_listed dst n) \<and>
         (\<forall>m item t. length (filter is_delete
              (issued t (snd (cleanup_one P s_parent d_parent m item t)))) \<le> 1) \<and>
         length (filter is_delete (issued s s')) \<le>
           length (filter (\<lambda>(j, fj). j \<notin> fst ` set (file_info s)) cur) \<and>
         (\<forall>k. Request (Delete k) \<in> set (issued s s') \<longrightarrow> (\<exists>n. last_listed dst n = Some k)) \<and>
         (\<forall>k v n. (k, v) \<in> set dst \<and> name v = Some n \<and> last_listed dst n \<noteq> Some k
            \<longrightarrow> Request (Delete k) \<notin> set (issued s s')) \<and>
         store_files (remote (snd (cleanup_files store_service ''s'' ''d''
                                     (new_session duplicate_store [])))) =
           [(''old1'', \<lparr>f_name = ''X'', f_parents = [''d''], f_mimeType = ''text/plain''\<rparr>),
            (''stray'', \<lparr>f_name = ''X'', f_parents = [''d''], f_mimeType = ''text/plain''\<rparr>)]"
proof (intro conjI allI impI)
  fix m n assume "name_to_id dst [] = Inr m"
  then show "map_of m n = last_listed dst n" by (rule name_to_id_last_listed)
next
  fix m item t
  show "length (filter is_delete (issued t (snd (cleanup_one P s_parent d_parent m item t)))) \<le> 1"
    by (rule cleanup_one_deletes)
next
  show "length (filter is_delete (issued s s')) \<le>
           length (filter (\<lambda>(j, fj). j \<notin> fst ` set (file_info s)) cur)"
    using assms by (rule cleanup_files_delete_count)
next
  fix k assume "Request (Delete k) \<in> set (issued s s')"
  with assms show "\<exists>n. last_listed dst n = Some k" by (rule cleanup_files_delete_held)
next
  fix k v n
  assume kv: "(k, v) \<in> set dst \<and> name v = Some n \<and> last_listed dst n \<noteq> Some k"
  show "Request (Delete k) \<notin> set (issued s s')"
  proof
    assume "Request (Delete k) \<in> set (issued s s')"
    with assms obtain n' where "last_listed dst n' = Some k"
      using cleanup_files_delete_held by blast
    then obtain v' where v': "(k, v') \<in> set dst" "name v' = Some n'"
      using last_listed_in by blast
    have "distinct (map fst dst)" using fresh_listings_distinct(2)[OF assms(1)] .
    with v'(1) kv have "v' = v" by (metis eq_key_imp_eq_value)
    with v'(2) kv \<open>last_listed dst n' = Some k\<close> show False by simp
  qed
next
  show "store_files (remote (snd (cleanup_files store_service ''s'' ''d''
                                     (new_session duplicate_store [])))) =
           [(''old1'', \<lparr>f_name = ''X'', f_parents = [''d''], f_mimeType = ''text/plain''\<rparr>),
            (''stray'', \<lparr>f_name = ''X'', f_parents = [''d''], f_mimeType = ''text/plain''\<rparr>)]"
    unfolding duplicate_pass by simp
qed

theorem cleanup_deletes_last_listed_only_witness:
  "fresh_listings store_service ''s'' ''d''
     (snd (emit (Cleanup ''s'' ''d'') (new_session duplicate_store []))) =
   (Inr ([(''stray'', info_stray)], [(''old1'', info_old), (''old2'', info_old)]),
    (new_session duplicate_store [])
      \<lparr>trace := [Cleanup ''s'' ''d'', Request (List None (Some (in_parents ''s''))),
                 Request (List None (Some (in_parents ''d'')))]\<rparr>) \<and>
   last_listed [(''old1'', info_old), (''old2'', info_old)] ''X'' = Some ''old2'' \<and>
   Request (Delete ''old2'') \<in>
     set (issued (new_session duplicate_store [])
            (snd (cleanup_files store_service ''s'' ''d'' (new_session duplicate_store [])))) \<and>
   Request (Delete ''old1'') \<notin>
     set (issued (new_session duplicate_store [])
            (snd (cleanup_files store_service ''s'' ''d'' (new_session duplicate_store []))))"
proof -
  note main = cleanup_deletes_last_listed_only[OF duplicate_listings duplicate_pass]
  have ll: "last_listed [(''old1'', info_old), (''old2'', info_old)] ''X'' = Some ''old2''"
    by (simp add: info_old_def)
  have del: "Request (Delete ''old2'') \<in>
     set (issued (new_session duplicate_store [])
            (snd (cleanup_files store_service ''s'' ''d'' (new_session duplicate_store []))))"
    unfolding duplicate_pass by (simp add: issued_def new_session_def)
  have pre: "(''old1'', info_old) \<in> set [(''old1'', info_old), (''old2'', info_old)] \<and>
      name info_old = Some ''X'' \<and>
      last_listed [(''old1'', info_old), (''old2'', info_old)] ''X'' \<noteq> Some ''old1''"
    by (simp add: info_old_def)
  have keep: "Request (Delete ''old1'') \<notin>
     set (issued (new_session duplicate_store [])
            (snd (cleanup_files store_service ''s'' ''d'' (new_session duplicate_store []))))"
    unfolding duplicate_pass snd_conv
    using main[THEN conjunct2, THEN conjunct2, THEN conjunct2, THEN conjunct2, THEN conjunct1,
               rule_format, OF pre] .
  show ?thesis by (intro conjI duplicate_listings ll del keep)
qed

text \<open>
  C3. For every provider, every session and every folder of the snapshot that has a name,
  is not yet copied and whose children all have a mime-type: once the folder is created,
  \<open>copy_item\<close> calls itself on the children of the folder one after the other, each call
  from the state the previous one left, on the folder children first (priority 1), then the
  spreadsheet children (priority 0), then all the others (the default -1), each group in
  snapshot order and each child with the created folder as its destination; it then records
  the folder and returns the created id. The same holds of the body of \<open>copy_item\<close>
  whatever it recurses with. On the folder whose children are a plain file, a folder, a
  spreadsheet and a plain file, the Create of the folder child is sent before the Copy of
  the spreadsheet, which is sent before the Copy of either plain file.
\<close>

theorem children_in_priority_order:
  assumes item: "map_of (file_info s) item = Some fi" "name fi = Some n"
      "mimeType fi = Some FOLDER_TYPE" "item \<notin> copied_files s"
    and children: "\<forall>(i, f) \<in> set (children_of item (file_info s)). mimeType f \<noteq> None"
  shows "copy_item P (Suc depth) item dest new_name s =
           seq (create_folder P dest (if truthy new_name then the new_name else n))
             (\<lambda>created.
                seq (foreach (map (\<lambda>(file_id, f). (file_id, created))
                                (folders_first (children_of item (file_info s))))
                       (\<lambda>(file_id, created).
                          seq (copy_item P depth file_id created None) (\<lambda>r. ret ())))
                  (\<lambda>u. seq (record_folder item created) (\<lambda>u. ret (Some created))))
             (s\<lparr>trace := trace s @ [Sleep COPY_SLEEP]\<rparr>) \<and>
         copy_item_body P recurse item dest new_name s =
           seq (create_folder P dest (if truthy new_name then the new_name else n))
             (\<lambda>created.
                seq (foreach (map (\<lambda>(file_id, f). (file_id, created))
                                (folders_first (children_of item (file_info s))))
                       (\<lambda>(file_id, created). seq (recurse file_id created None) (\<lambda>r. ret ())))
                  (\<lambda>u. seq (record_folder item created) (\<lambda>u. ret (Some created))))
             (s\<lparr>trace := trace s @ [Sleep COPY_SLEEP]\<rparr>) \<and>
         creates_and_copies
           (trace (snd (copy_item store_service 1 ''R'' ''D'' None
                          (new_session mixed_store mixed_snapshot)))) =
           [Create ''reports'' FOLDER_TYPE ''D'', Create ''sub'' FOLDER_TYPE ''uuid'',
            Copy ''c'', Copy ''a'', Copy ''e'']"
proof (intro conjI)
  show "copy_item P (Suc depth) item dest new_name s =
           seq (create_folder P dest (if truthy new_name then the new_name else n))
             (\<lambda>created.
                seq (foreach (map (\<lambda>(file_id, f). (file_id, created))
                                (folders_first (children_of item (file_info s))))
                       (\<lambda>(file_id, created).
                          seq (copy_item P depth file_id created None) (\<lambda>r. ret ())))
                  (\<lambda>u. seq (record_folder item created) (\<lambda>u. ret (Some created))))
             (s\<lparr>trace := trace s @ [Sleep COPY_SLEEP]\<rparr>)"
    unfolding copy_item.simps by (rule copy_item_body_folder[OF item children])
  show "copy_item_body P recurse item dest new_name s =
           seq (create_folder P dest (if truthy new_name then the new_name else n))
             (\<lambda>created.
                seq (foreach (map (\<lambda>(file_id, f). (file_id, created))
                                (folders_first (children_of item (file_info s))))
                       (\<lambda>(file_id, created). seq (recurse file_id created None) (\<lambda>r. ret ())))
                  (\<lambda>u. seq (record_folder item created) (\<lambda>u. ret (Some created))))
             (s\<lparr>trace := trace s @ [Sleep COPY_SLEEP]\<rparr>)"
    by (rule copy_item_body_folder[OF item children])
  show "creates_and_copies
           (trace (snd (copy_item store_service 1 ''R'' ''D'' None
                          (new_session mixed_store mixed_snapshot)))) =
           [Create ''reports'' FOLDER_TYPE ''D'', Create ''sub'' FOLDER_TYPE ''uuid'',
            Copy ''c'', Copy ''a'', Copy ''e'']"
    by (rule mixed_trace)
qed

theorem children_in_priority_order_witness:
  "copy_item store_service (Suc 0) ''R'' ''D'' None (new_session mixed_store mixed_snapshot) =
     seq (create_folder store_service ''D'' ''reports'')
       (\<lambda>created.
          seq (foreach [(''b'', created), (''c'', created), (''a'', created), (''e'', created)]
                 (\<lambda>(file_id, created).
                    seq (copy_item store_service 0 file_id created None) (\<lambda>r. ret ())))
            (\<lambda>u. seq (record_folder ''R'' created) (\<lambda>u. ret (Some created))))
       ((new_session mixed_store mixed_snapshot)\<lparr>trace := [Sleep COPY_SLEEP]\<rparr>) \<and>
   map fst (folders_first (children_of ''R'' mixed_snapshot)) = [''b'', ''c'', ''a'', ''e'']"
proof -
  let ?s = "new_session mixed_store mixed_snapshot"
  let ?fi = "\<lparr>kind = None, name = Some ''reports'', mimeType = Some FOLDER_TYPE,
              parent = Some ''top''\<rparr>"
  have st: "file_info ?s = mixed_snapshot" "copied_files ?s = {}" "trace ?s = []"
    by (simp_all add: new_session_def)
  have h1: "map_of (file_info ?s) ''R'' = Some ?fi"
    unfolding st by (simp add: mixed_snapshot_def)
  have h2: "name ?fi = Some ''reports''" by simp
  have h3: "mimeType ?fi = Some FOLDER_TYPE" by simp
  have h4: "''R'' \<notin> copied_files ?s" unfolding st by simp
  have h5: "\<forall>(i, f) \<in> set (children_of ''R'' (file_info ?s)). mimeType f \<noteq> None"
    unfolding st by (simp add: children_of_def mixed_snapshot_def)
  have nm: "(if truthy None then the None else ''reports'') = ''reports''"
    by (simp add: truthy_def)
  note main = children_in_priority_order[OF h1 h2 h3 h4 h5,
      where P = store_service and depth = 0 and dest = "''D''" and new_name = None,
      THEN conjunct1, unfolded st nm mixed_order append_Nil]
  have order: "map fst (folders_first (children_of ''R'' mixed_snapshot)) =
                 [''b'', ''c'', ''a'', ''e'']"
    by (simp add: folders_first_def children_of_def mixed_snapshot_def FOLDER_TYPE_def
          SPREADSHEET_TYPE_def)
  show ?thesis by (intro conjI main order)
qed

text \<open>
  C4, as the code has it, on the file store whose List answers page by page. Let both
  listings that \<open>_cleanup_files(a, b)\<close> takes be complete on their first page: no more files
  are listed under \<open>a\<close>, and no more under \<open>b\<close>, than a page holds. Let the store hold a
  stray \<open>S\<close> (an id absent from the snapshot) listed under \<open>a\<close> with the name \<open>Copy of X\<close>,
  and an entry \<open>old\<close>, other than \<open>S\<close>, that is the only entry named \<open>X\<close> under \<open>b\<close>. Let
  every stray listed under \<open>a\<close> have a clean name and a mime-type that are not empty, and
  let \<open>a\<close> not be empty (so that \<open>move_file\<close> takes what it is given), and let \<open>S\<close> not be
  itself listed under \<open>b\<close> with a name that is the clean name of a stray listed under \<open>a\<close>.
  Then, if \<open>_cleanup_files(a, b)\<close> returns, \<open>old\<close> has been deleted, \<open>S\<close> has been moved
  from \<open>a\<close> into \<open>b\<close> and renamed \<open>X\<close>, and \<open>S\<close> is the only entry named \<open>X\<close> under \<open>b\<close>.
\<close>

theorem stray_promoted:
  assumes complete: "length (listed a (remote s)) \<le> page_size"
      "length (listed b (remote s)) \<le> page_size"
    and dict: "distinct (map fst (store_files (remote s)))"
    and stray: "map_of (store_files (remote s)) S = Some fS" "f_name fS = prefix @ X"
      "a \<in> set (f_parents fS)" "S \<notin> fst ` set (file_info s)"
    and old: "map_of (store_files (remote s)) old = Some f_old" "f_name f_old = X"
      "b \<in> set (f_parents f_old)" "old \<noteq> S"
    and only: "\<forall>(k, f) \<in> set (store_files (remote s)).
                 b \<in> set (f_parents f) \<and> f_name f = X \<longrightarrow> k = old"
    and others: "\<forall>(j, fj) \<in> set (store_files (remote s)).
                 a \<in> set (f_parents fj) \<and> j \<notin> fst ` set (file_info s) \<longrightarrow>
                   clean (f_name fj) \<noteq> [] \<and> f_mimeType fj \<noteq> [] \<and>
                   (b \<in> set (f_parents fS) \<longrightarrow> clean (f_name fj) \<noteq> f_name fS)"
    and nonempty: "a \<noteq> []"
    and run: "cleanup_files (paged_service page_size) a b s = (Inr (), s')"
  shows "map_of (store_files (remote s')) old = None \<and>
         map_of (store_files (remote s')) S =
           Some \<lparr>f_name = X, f_parents = remove1 a (f_parents fS) @ [b],
                 f_mimeType = f_mimeType fS\<rparr> \<and>
         (\<forall>k f. map_of (store_files (remote s')) k = Some f \<and> b \<in> set (f_parents f) \<and>
                f_name f = X \<longrightarrow> k = S)"
proof -
  have "cleanup_files store_service a b s = (Inr (), s')"
    using run paged_cleanup_files[OF complete] by simp
  then show ?thesis
    by (rule promoted_on_store[OF dict stray old only others nonempty])
qed

theorem stray_promoted_witness:
  "cleanup_files (paged_service 2) ''s'' ''d'' (new_session promotion_store promotion_snapshot) =
   (Inr (),
    \<lparr>remote =
       \<lparr>store_files =
          [(''orig'', \<lparr>f_name = ''X'', f_parents = [''s''], f_mimeType = ''text/plain''\<rparr>),
           (''stray'', \<lparr>f_name = ''X'', f_parents = [''d''], f_mimeType = ''text/plain''\<rparr>)],
        next_uuid = 0\<rparr>,
     file_info = promotion_snapshot, copied_files = {}, folders_copied = [],
     trace = [Cleanup ''s'' ''d'', Request (List None (Some (in_parents ''s''))),
              Request (List None (Some (in_parents ''d''))),
              Request (Delete ''old''), Request (Update ''stray'' ''d'' ''s'' ''X'')]\<rparr>) \<and>
   length (listed ''s'' promotion_store) = 2 \<and> length (listed ''d'' promotion_store) = 1 \<and>
   map_of (store_files (remote (snd (cleanup_files (paged_service 2) ''s'' ''d''
            (new_session promotion_store promotion_snapshot))))) ''old'' = None \<and>
   map_of (store_files (remote (snd (cleanup_files (paged_service 2) ''s'' ''d''
            (new_session promotion_store promotion_snapshot))))) ''stray'' =
     Some \<lparr>f_name = ''X'', f_parents = [''d''], f_mimeType = ''text/plain''\<rparr>"
proof -
  let ?s = "new_session promotion_store promotion_snapshot"
  let ?fS = "\<lparr>f_name = ''Copy of X'', f_parents = [''s''], f_mimeType = ''text/plain''\<rparr>"
  let ?fO = "\<lparr>f_name = ''X'', f_parents = [''d''], f_mimeType = ''text/plain''\<rparr>"
  have st: "remote ?s = promotion_store" "file_info ?s = promotion_snapshot"
    by (simp_all add: new_session_def)
  have la: "length (listed ''s'' promotion_store) = 2"
    by (simp add: listed_def promotion_store_def)
  have lb: "length (listed ''d'' promotion_store) = 1"
    by (simp add: listed_def promotion_store_def)
  have c1: "length (listed ''s'' (remote ?s)) \<le> 2" unfolding st la by simp
  have c2: "length (listed ''d'' (remote ?s)) \<le> 2" unfolding st lb by simp
  have h1: "distinct (map fst (store_files (remote ?s)))"
    unfolding st by (simp add: promotion_store_def)
  have h2: "map_of (store_files (remote ?s)) ''stray'' = Some ?fS"
    unfolding st by (simp add: promotion_store_def)
  have h3: "f_name ?fS = prefix @ ''X''" by (simp add: prefix_def)
  have h4: "''s'' \<in> set (f_parents ?fS)" by simp
  have h5: "''stray'' \<notin> fst ` set (file_info ?s)" unfolding st by (simp add: promotion_snapshot_def)
  have h6: "map_of (store_files (remote ?s)) ''old'' = Some ?fO"
    unfolding st by (simp add: promotion_store_def)
  have h7: "f_name ?fO = ''X''" by simp
  have h8: "''d'' \<in> set (f_parents ?fO)" by simp
  have h9: "''old'' \<noteq> ''stray''" by simp
  have h10: "\<forall>(k, f) \<in> set (store_files (remote ?s)).
               ''d'' \<in> set (f_parents f) \<and> f_name f = ''X'' \<longrightarrow> k = ''old''"
    unfolding st by (simp add: promotion_store_def)
  have h11: "\<forall>(j, fj) \<in> set (store_files (remote ?s)).
               ''s'' \<in> set (f_parents fj) \<and> j \<notin> fst ` set (file_info ?s) \<longrightarrow>
                 clean (f_name fj) \<noteq> [] \<and> f_mimeType fj \<noteq> [] \<and>
                 (''d'' \<in> set (f_parents ?fS) \<longrightarrow> clean (f_name fj) \<noteq> f_name ?fS)"
    unfolding st
    by (simp add: promotion_store_def promotion_snapshot_def clean_def startswith_def
          prefix_def)
  have h12: "''s'' \<noteq> []" by simp
  note main = stray_promoted[OF c1 c2 h1 h2 h3 h4 h5 h6 h7 h8 h9 h10 h11 h12 promotion_pass_paged]
  have gone: "map_of (store_files (remote (snd (cleanup_files (paged_service 2) ''s'' ''d'' ?s))))
                ''old'' = None"
    unfolding promotion_pass_paged snd_conv using main by (rule conjunct1)
  have there: "map_of (store_files (remote (snd (cleanup_files (paged_service 2) ''s'' ''d'' ?s))))
                ''stray'' = Some \<lparr>f_name = ''X'', f_parents = [''d''], f_mimeType = ''text/plain''\<rparr>"
    unfolding promotion_pass_paged snd_conv using main[THEN conjunct2, THEN conjunct1] by simp
  show ?thesis by (intro conjI promotion_pass_paged la lb gone there)
qed

text \<open>
  C4 as stated fails, on a store whose listings are complete: the stray \<open>Copy of X\<close> is
  listed under \<open>s\<close>, the listing of \<open>d\<close> holds exactly one entry named \<open>X\<close>, of another id,
  and \<open>_cleanup_files\<close> returns; but the stray, promoted and renamed \<open>X\<close>, is then deleted in
  the round of the copy of the copy, whose clean name \<open>Copy of X\<close> the dictionary maps to
  the stray. No entry named \<open>X\<close> is left under \<open>d\<close>.
\<close>

theorem stray_promoted_counterexample:
  "fst (fresh_listings store_service ''s'' ''d''
          (snd (emit (Cleanup ''s'' ''d'') (new_session copy_of_copy_store [])))) =
   Inr ([(''stray'', info_stray),
         (''second'', \<lparr>kind = None, name = Some ''Copy of Copy of X'',
                        mimeType = Some ''text/plain'', parent = Some ''s''\<rparr>)],
        [(''old'', info_old), (''stray'', info_stray)]) \<and>
   fst (cleanup_files store_service ''s'' ''d'' (new_session copy_of_copy_store [])) = Inr () \<and>
   store_files (remote (snd (cleanup_files store_service ''s'' ''d''
                               (new_session copy_of_copy_store [])))) =
     [(''second'', \<lparr>f_name = ''Copy of X'', f_parents = [''d''],
                    f_mimeType = ''text/plain''\<rparr>)]"
  by (simp add: copy_of_copy_listings copy_of_copy_pass)

end
